theory Spec2Isabelle
  imports Main "HOL-Library.Char_ord" "HOL-Library.List_Lexorder"
begin

section \<open>Release notes: the commit parser and the notes pipeline of notes.js\<close>

text \<open>
  A shallow embedding of \<^verbatim>\<open>script/release-notes/notes.js\<close>.

  Conventions of the model.
  \<^item> A JavaScript string is a \<^typ>\<open>string\<close>; a character stands for one code unit. The
    character classes and the case conversions below are those of JavaScript on ASCII
    text; code units from 128 on are treated as caseless non-word, non-space characters.
  \<^item> \<^verbatim>\<open>undefined\<close> and \<^verbatim>\<open>null\<close> are both \<open>None\<close>: the source only ever tests such
    values for truthiness, or interpolates them into a template string.
  \<^item> A JavaScript number that \<^verbatim>\<open>parseInt\<close> produces from a digit string is a \<^typ>\<open>nat\<close>
    (exact; the source's doubles agree with it below \<open>2^53\<close>).
  \<^item> An exception is a value \<open>Inl e\<close> of a sum type; the record that the source mutates
    in place is passed along and returned.
\<close>

subsection \<open>Strings\<close>

definition LF :: char where "LF = CHR 0x0A"
definition CR :: char where "CR = CHR 0x0D"

definition ws_chars :: string where
  "ws_chars = [CHR 0x09, CHR 0x0A, CHR 0x0B, CHR 0x0C, CHR 0x0D, CHR 0x20]"

definition digit_chars :: string where
  "digit_chars = ''0123456789''"

definition word_chars :: string where
  "word_chars = ''abcdefghijklmnopqrstuvwxyzABCDEFGHIJKLMNOPQRSTUVWXYZ0123456789_''"

definition is_ws :: "char \<Rightarrow> bool" where
  "is_ws c = (c \<in> set ws_chars)"

definition is_word :: "char \<Rightarrow> bool" where
  "is_word c = (c \<in> set word_chars)"

text \<open>\<^verbatim>\<open>String.prototype.trim\<close>.\<close>

definition trim :: "string \<Rightarrow> string" where
  "trim s = rev (dropWhile is_ws (rev (dropWhile is_ws s)))"

text \<open>\<^verbatim>\<open>s.startsWith(p)\<close>.\<close>

definition startsWith :: "string \<Rightarrow> string \<Rightarrow> bool" where
  "startsWith s p = (take (length p) s = p)"

text \<open>\<^verbatim>\<open>s.endsWith(p)\<close>.\<close>

definition endsWith :: "string \<Rightarrow> string \<Rightarrow> bool" where
  "endsWith s p = startsWith (rev s) (rev p)"

text \<open>\<^verbatim>\<open>s.includes(p)\<close>.\<close>

fun includes_str :: "string \<Rightarrow> string \<Rightarrow> bool" where
  "includes_str [] p = (p = [])"
| "includes_str (x # xs) p = (startsWith (x # xs) p \<or> includes_str xs p)"

text \<open>\<^verbatim>\<open>s.replace(p, r)\<close> with a string pattern: the first occurrence only.\<close>

fun replace_str :: "string \<Rightarrow> string \<Rightarrow> string \<Rightarrow> string" where
  "replace_str [] p r = (if p = [] then r else [])"
| "replace_str (x # xs) p r =
     (if startsWith (x # xs) p then r @ drop (length p) (x # xs)
      else x # replace_str xs p r)"

text \<open>\<^verbatim>\<open>toLowerCase\<close>, \<^verbatim>\<open>toLocaleLowerCase\<close> and \<^verbatim>\<open>toUpperCase\<close> on ASCII.\<close>

definition lower_char :: "char \<Rightarrow> char" where
  "lower_char c =
     (case map_of (zip ''ABCDEFGHIJKLMNOPQRSTUVWXYZ'' ''abcdefghijklmnopqrstuvwxyz'') c of
        Some d \<Rightarrow> d | None \<Rightarrow> c)"

definition upper_char :: "char \<Rightarrow> char" where
  "upper_char c =
     (case map_of (zip ''abcdefghijklmnopqrstuvwxyz'' ''ABCDEFGHIJKLMNOPQRSTUVWXYZ'') c of
        Some d \<Rightarrow> d | None \<Rightarrow> c)"

definition toLowerCase :: "string \<Rightarrow> string" where
  "toLowerCase s = map lower_char s"

text \<open>\<^verbatim>\<open>parts.join(sep)\<close>.\<close>

fun join :: "string \<Rightarrow> string list \<Rightarrow> string" where
  "join sep [] = []"
| "join sep [x] = x"
| "join sep (x # y # ys) = x @ sep @ join sep (y # ys)"

text \<open>\<^verbatim>\<open>parseInt\<close> on a string of decimal digits.\<close>

definition digit_val :: "char \<Rightarrow> nat" where
  "digit_val c = (case map_of (zip digit_chars [0, 1, 2, 3, 4, 5, 6, 7, 8, 9]) c of
                    Some d \<Rightarrow> d | None \<Rightarrow> 0)"

definition parseInt :: "string \<Rightarrow> nat" where
  "parseInt ds = foldl (\<lambda>n c. 10 * n + digit_val c) 0 ds"

text \<open>A number interpolated into a template string: its decimal digits.\<close>

fun show_nat :: "nat \<Rightarrow> string" where
  "show_nat n =
     (if n < 10 then [digit_chars ! n]
      else show_nat (n div 10) @ [digit_chars ! (n mod 10)])"

declare show_nat.simps [simp del]

subsection \<open>Regular expressions\<close>

text \<open>
  The regular expressions of the source are values of \<open>regex\<close>, matched by a backtracking
  matcher that lists the ways a pattern can match at a position in the order in which
  JavaScript tries them (greedy quantifiers, alternatives left to right). A matcher state
  is the character before the position (\<open>None\<close> at the start of the input), the rest of
  the input, and the capture groups recorded so far.
\<close>

datatype regex =
    Lit char
  | Cls string
  | NCls string
  | Eps
  | Seq regex regex
  | Alt regex regex
  | Star regex
  | Grp nat regex
  | Bol
  | Eol
  | Wordb

type_synonym mstate = "char option \<times> string \<times> (nat \<times> string) list"

definition step_char :: "(char \<Rightarrow> bool) \<Rightarrow> mstate \<Rightarrow> mstate list" where
  "step_char P st =
     (case st of (p, s, cs) \<Rightarrow>
        (case s of [] \<Rightarrow> [] | x # xs \<Rightarrow> if P x then [(Some x, xs, cs)] else []))"

definition rest_len :: "mstate \<Rightarrow> nat" where
  "rest_len st = length (fst (snd st))"

text \<open>
  A greedy star: one more iteration first, then none. An iteration that consumes nothing
  is rejected, as in JavaScript, so the rest of the input bounds the number of iterations.
\<close>

fun star :: "(mstate \<Rightarrow> mstate list) \<Rightarrow> nat \<Rightarrow> mstate \<Rightarrow> mstate list" where
  "star f 0 st = [st]"
| "star f (Suc n) st =
     concat (map (star f n) (filter (\<lambda>st'. rest_len st' < rest_len st) (f st))) @ [st]"

definition at_word :: "char option \<Rightarrow> bool" where
  "at_word p = (case p of None \<Rightarrow> False | Some c \<Rightarrow> is_word c)"

definition next_char :: "string \<Rightarrow> char option" where
  "next_char s = (case s of [] \<Rightarrow> None | x # _ \<Rightarrow> Some x)"

definition set_group :: "nat \<Rightarrow> string \<Rightarrow> mstate \<Rightarrow> mstate" where
  "set_group i s st =
     (case st of (p', s', cs') \<Rightarrow> (p', s', (i, take (length s - length s') s) # cs'))"

primrec rmatch :: "regex \<Rightarrow> mstate \<Rightarrow> mstate list" where
  "rmatch (Lit c) = step_char (\<lambda>x. x = c)"
| "rmatch (Cls cs) = step_char (\<lambda>x. x \<in> set cs)"
| "rmatch (NCls cs) = step_char (\<lambda>x. x \<notin> set cs)"
| "rmatch Eps = (\<lambda>st. [st])"
| "rmatch (Seq a b) = (\<lambda>st. concat (map (rmatch b) (rmatch a st)))"
| "rmatch (Alt a b) = (\<lambda>st. rmatch a st @ rmatch b st)"
| "rmatch (Star a) = (\<lambda>st. star (rmatch a) (rest_len st) st)"
| "rmatch (Grp i a) = (\<lambda>st. map (set_group i (fst (snd st))) (rmatch a st))"
| "rmatch Bol = (\<lambda>st. if fst st = None then [st] else [])"
| "rmatch Eol = (\<lambda>st. if fst (snd st) = [] then [st] else [])"
| "rmatch Wordb =
     (\<lambda>st. if at_word (fst st) \<noteq> at_word (next_char (fst (snd st))) then [st] else [])"

text \<open>
  The result of \<^verbatim>\<open>RegExp.prototype.exec\<close> without the global flag: the leftmost
  position at which the pattern matches, and there the first way it matches. The result
  holds the text before the match, the matched text, the text after it and the groups.
\<close>

record rx_match =
  before :: string
  matched :: string
  after :: string
  groups :: "(nat \<times> string) list"

fun search :: "regex \<Rightarrow> string \<Rightarrow> char option \<Rightarrow> string \<Rightarrow> rx_match option" where
  "search r pre p [] =
     (case rmatch r (p, [], []) of
        [] \<Rightarrow> None
      | st # _ \<Rightarrow> Some \<lparr>before = rev pre, matched = [], after = [], groups = snd (snd st)\<rparr>)"
| "search r pre p (x # xs) =
     (case rmatch r (p, x # xs, []) of
        [] \<Rightarrow> search r (x # pre) (Some x) xs
      | st # _ \<Rightarrow>
          Some \<lparr>before = rev pre,
                matched = take (length (x # xs) - rest_len st) (x # xs),
                after = fst (snd st), groups = snd (snd st)\<rparr>)"

definition exec :: "regex \<Rightarrow> string \<Rightarrow> rx_match option" where
  "exec r s = search r [] None s"

text \<open>\<^verbatim>\<open>m[i]\<close> for a group that took part in the match; the empty string stands in
  for a group that did not (every group of the patterns below takes part).\<close>

definition grp :: "rx_match \<Rightarrow> nat \<Rightarrow> string" where
  "grp m i = (case map_of (groups m) i of Some s \<Rightarrow> s | None \<Rightarrow> [])"

text \<open>\<^verbatim>\<open>s.split(re)\<close> for a pattern that never matches the empty string.\<close>

function split_re :: "regex \<Rightarrow> string \<Rightarrow> string list" where
  "split_re r s =
     (case exec r s of
        None \<Rightarrow> [s]
      | Some m \<Rightarrow>
          if length (after m) < length s then before m # split_re r (after m)
          else [s])"
  by pat_completeness auto
termination
  by (relation "measure (\<lambda>(r, s). length s)") auto

declare split_re.simps [simp del]

text \<open>\<^verbatim>\<open>s.replace(re, r)\<close> without the global flag: the first match only.\<close>

definition replace_re :: "regex \<Rightarrow> string \<Rightarrow> string \<Rightarrow> string" where
  "replace_re r new s =
     (case exec r s of None \<Rightarrow> s | Some m \<Rightarrow> before m @ new @ after m)"

text \<open>Pattern building blocks: sequences, literals, \<open>+\<close>, \<open>?\<close>, \<open>{n}\<close>, alternatives.\<close>

definition seqs :: "regex list \<Rightarrow> regex" where
  "seqs rs = foldr Seq rs Eps"

definition lits :: "string \<Rightarrow> regex" where
  "lits s = seqs (map Lit s)"

definition plus :: "regex \<Rightarrow> regex" where
  "plus r = Seq r (Star r)"

definition opt :: "regex \<Rightarrow> regex" where
  "opt r = Alt r Eps"

definition repeat :: "nat \<Rightarrow> regex \<Rightarrow> regex" where
  "repeat n r = seqs (replicate n r)"

fun alts :: "regex list \<Rightarrow> regex" where
  "alts [] = Eps"
| "alts [r] = r"
| "alts (r # rs) = Alt r (alts rs)"

definition rx_dot :: regex where "rx_dot = NCls [LF, CR]"
definition rx_d :: regex where "rx_d = Cls digit_chars"
definition rx_w :: regex where "rx_w = Cls word_chars"
definition rx_s :: regex where "rx_s = Cls ws_chars"

subsection \<open>The patterns of the source\<close>

text \<open>\<^verbatim>\<open>/\r?\n\r?\n/\<close>: the separator of paragraphs.\<close>

definition re_paragraphs :: regex where
  "re_paragraphs = seqs [opt (Lit CR), Lit LF, opt (Lit CR), Lit LF]"

text \<open>\<^verbatim>\<open>/\r?\n/\<close>\<close>

definition re_newline :: regex where
  "re_newline = seqs [opt (Lit CR), Lit LF]"

text \<open>\<^verbatim>\<open>/^[Nn]o[ _-][Nn]otes\.?$/\<close>\<close>

definition re_no_notes :: regex where
  "re_no_notes =
     seqs [Bol, Cls ''Nn'', Lit CHR ''o'', Cls '' _-'', Cls ''Nn'', lits ''otes'',
           opt (Lit CHR ''.''), Eol]"

text \<open>\<^verbatim>\<open>/^[Nn]one\.?$/\<close>\<close>

definition re_none :: regex where
  "re_none = seqs [Bol, Cls ''Nn'', lits ''one'', opt (Lit CHR ''.''), Eol]"

text \<open>\<^verbatim>\<open>/^(.*)\s\(#(\d+)\)$/\<close>\<close>

definition re_pr_suffix :: regex where
  "re_pr_suffix =
     seqs [Bol, Grp 1 (Star rx_dot), rx_s, lits ''(#'', Grp 2 (plus rx_d), Lit CHR '')'', Eol]"

text \<open>\<^verbatim>\<open>/^(\w+):\s(.*)$/\<close>\<close>

definition re_semantic :: regex where
  "re_semantic = seqs [Bol, Grp 1 (plus rx_w), Lit CHR '':'', rx_s, Grp 2 (Star rx_dot), Eol]"

text \<open>\<^verbatim>\<open>/^Merge pull request #(\d+) from (.*)$/\<close>\<close>

definition re_merge :: regex where
  "re_merge =
     seqs [Bol, lits ''Merge pull request #'', Grp 1 (plus rx_d), lits '' from '',
           Grp 2 (Star rx_dot), Eol]"

text \<open>\<^verbatim>\<open>/\bBackport of #(\d+)\b/\<close>\<close>

definition re_backport_of :: regex where
  "re_backport_of = seqs [Wordb, lits ''Backport of #'', Grp 1 (plus rx_d), Wordb]"

text \<open>\<^verbatim>\<open>/\b(?:close|closes|closed|fix|fixes|fixed|resolve|resolves|resolved|for)\s#(\d+)\b/\<close>\<close>

definition re_closes :: regex where
  "re_closes =
     seqs [Wordb,
           alts (map lits [''close'', ''closes'', ''closed'', ''fix'', ''fixes'', ''fixed'',
                           ''resolve'', ''resolves'', ''resolved'', ''for'']),
           rx_s, Lit CHR ''#'', Grp 1 (plus rx_d), Wordb]"

text \<open>\<^verbatim>\<open>/Fixes \[#(\d+)\]\(https:\/\/github.com\/(\w+)\/(\w+)\/issues\/(\d+)\)/\<close>
  (the dot of \<^verbatim>\<open>github.com\<close> is not escaped in the source).\<close>

definition re_md_fixes :: regex where
  "re_md_fixes =
     seqs [lits ''Fixes [#'', Grp 1 (plus rx_d), lits ''](https://github'', rx_dot,
           lits ''com/'', Grp 2 (plus rx_w), Lit CHR ''/'', Grp 3 (plus rx_w),
           lits ''/issues/'', Grp 4 (plus rx_d), Lit CHR '')'']"

text \<open>\<^verbatim>\<open>/This reverts commit ([a-f0-9]{40})\./\<close>\<close>

definition re_revert :: regex where
  "re_revert =
     seqs [lits ''This reverts commit '', Grp 1 (repeat 40 (Cls ''abcdef0123456789'')),
           Lit CHR ''.'']"

text \<open>\<^verbatim>\<open>/\b(\w+)\/(\w+)#(\d+)\b/\<close>\<close>

definition re_backport_ref :: regex where
  "re_backport_ref =
     seqs [Wordb, Grp 1 (plus rx_w), Lit CHR ''/'', Grp 2 (plus rx_w), Lit CHR ''#'',
           Grp 3 (plus rx_d), Wordb]"

text \<open>\<^verbatim>\<open>/https:\/\/github\.com\/(\w+)\/(\w+)\/pull\/(\d+)/\<close>\<close>

definition re_backport_url :: regex where
  "re_backport_url =
     seqs [lits ''https://github.com/'', Grp 1 (plus rx_w), Lit CHR ''/'', Grp 2 (plus rx_w),
           lits ''/pull/'', Grp 3 (plus rx_d)]"

text \<open>\<^verbatim>\<open>/\bchore\((\w+)\):/\<close>\<close>

definition re_legacy_chore :: regex where
  "re_legacy_chore = seqs [Wordb, lits ''chore('', Grp 1 (plus rx_w), lits ''):'']"

text \<open>\<^verbatim>\<open>/\b(?:fix|fixes|fixed)/\<close>\<close>

definition re_legacy_fix :: regex where
  "re_legacy_fix = seqs [Wordb, alts (map lits [''fix'', ''fixes'', ''fixed''])]"

text \<open>\<^verbatim>\<open>/\[(?:docs|doc)\]/\<close>\<close>

definition re_legacy_docs :: regex where
  "re_legacy_docs = seqs [Lit CHR ''['', alts (map lits [''docs'', ''doc'']), Lit CHR '']'']"

text \<open>\<^verbatim>\<open>/^[Bb]ump v\d+\.\d+\.\d+/\<close>\<close>

definition re_bump :: regex where
  "re_bump =
     seqs [Bol, Cls ''Bb'', lits ''ump v'', plus rx_d, Lit CHR ''.'', plus rx_d,
           Lit CHR ''.'', plus rx_d]"

subsection \<open>Truthiness and constants\<close>

text \<open>A string-valued property that may be absent is truthy when it is a non-empty string.\<close>

definition truthy :: "string option \<Rightarrow> bool" where
  "truthy v = (case v of None \<Rightarrow> False | Some s \<Rightarrow> s \<noteq> [])"

definition NO_NOTES :: string where
  "NO_NOTES = ''No notes''"

definition FOLLOW_REPOS :: "string list" where
  "FOLLOW_REPOS = [''electron/electron'', ''electron/libchromiumcontent'', ''electron/node'']"

definition breakTypes :: "string list" where "breakTypes = [''breaking-change'']"
definition docTypes :: "string list" where "docTypes = [''doc'', ''docs'']"
definition featTypes :: "string list" where "featTypes = [''feat'', ''feature'']"
definition fixTypes :: "string list" where "fixTypes = [''fix'']"
definition otherTypes :: "string list" where
  "otherTypes = [''spec'', ''build'', ''test'', ''chore'', ''deps'', ''refactor'', ''tools'',
                 ''vendor'', ''perf'', ''style'', ''ci'']"
definition knownTypes :: "string list" where
  "knownTypes = breakTypes @ docTypes @ featTypes @ fixTypes @ otherTypes"

subsection \<open>getNoteFromBody\<close>

definition NOTE_PREFIX :: string where
  "NOTE_PREFIX = ''Notes: ''"

definition placeholder :: string where
  "placeholder = ''<!-- One-line Change Summary Here-->''"

text \<open>The first paragraph, trimmed, that starts with the prefix.\<close>

definition note_paragraph :: "string \<Rightarrow> string option" where
  "note_paragraph b =
     find (\<lambda>paragraph. startsWith paragraph NOTE_PREFIX) (map trim (split_re re_paragraphs b))"

text \<open>Prefix and placeholder removed, the first newline replaced, trimmed.\<close>

definition clean_note :: "string \<Rightarrow> string" where
  "clean_note p =
     trim (replace_re re_newline '' '' (replace_str (drop (length NOTE_PREFIX) p) placeholder []))"

definition getNoteFromBody :: "string option \<Rightarrow> string option" where
  "getNoteFromBody b =
     (case b of
        None \<Rightarrow> None
      | Some text \<Rightarrow>
          if text = [] then None
          else (case note_paragraph text of
                  None \<Rightarrow> None
                | Some p \<Rightarrow>
                    (let n = clean_note p in
                     if n \<noteq> [] \<and> exec re_no_notes n \<noteq> None then Some NO_NOTES
                     else if n \<noteq> [] \<and> exec re_none n \<noteq> None then Some NO_NOTES
                     else Some n)))"

subsection \<open>Commit records\<close>

text \<open>
  The value of \<^verbatim>\<open>pr.number\<close>: a number where the source stores the result of
  \<^verbatim>\<open>parseInt\<close>, a string where it stores the matched text itself.
\<close>

datatype jsnum = Num nat | Str string

text \<open>\<^verbatim>\<open>a === b\<close> and \<^verbatim>\<open>a !== b\<close>: a number and a string are never strictly equal.\<close>

definition strict_eq :: "jsnum \<Rightarrow> jsnum \<Rightarrow> bool" where
  "strict_eq a b =
     (case (a, b) of
        (Num m, Num n) \<Rightarrow> m = n
      | (Str s, Str t) \<Rightarrow> s = t
      | _ \<Rightarrow> False)"

definition truthy_num :: "jsnum \<Rightarrow> bool" where
  "truthy_num v = (case v of Num n \<Rightarrow> n \<noteq> 0 | Str s \<Rightarrow> s \<noteq> [])"

definition show_num :: "jsnum \<Rightarrow> string" where
  "show_num v = (case v of Num n \<Rightarrow> show_nat n | Str s \<Rightarrow> s)"

record pull =
  pr_owner :: string
  pr_repo :: string
  pr_number :: jsnum
  pr_branch :: "string option"

record commit =
  email :: "string option"
  hash :: "string option"
  owner :: "string option"
  repo :: "string option"
  parentHashes :: "string list option"
  originalSubject :: "string option"
  body :: "string option"
  note_text :: "string option"
  pr :: "pull option"
  originalPr :: "pull option"
  type :: "string option"
  issueNumber :: "nat option"
  revertHash :: "string option"
  subject :: "string option"

text \<open>The record \<^verbatim>\<open>{}\<close>.\<close>

definition empty_commit :: commit where
  "empty_commit =
     \<lparr>email = None, hash = None, owner = None, repo = None, parentHashes = None,
      originalSubject = None, body = None, note_text = None, pr = None, originalPr = None,
      type = None, issueNumber = None, revertHash = None, subject = None\<rparr>"

datatype error =
    BadPullRequest string string jsnum
  | TypeError

definition bind :: "error + 'a \<Rightarrow> ('a \<Rightarrow> error + 'b) \<Rightarrow> error + 'b" where
  "bind r f = (case r of Inl e \<Rightarrow> Inl e | Inr x \<Rightarrow> f x)"

subsection \<open>setPullRequest\<close>

definition setPullRequest :: "commit \<Rightarrow> string \<Rightarrow> string \<Rightarrow> jsnum \<Rightarrow> error + commit" where
  "setPullRequest c ownr rep number =
     (if ownr = [] \<or> rep = [] \<or> \<not> truthy_num number then Inl (BadPullRequest ownr rep number)
      else
        (let c1 = (if originalPr c = None then c\<lparr>originalPr := pr c\<rparr> else c);
             c2 = c1\<lparr>pr := Some \<lparr>pr_owner = ownr, pr_repo = rep, pr_number = number,
                                  pr_branch = None\<rparr>\<rparr>;
             c3 = (if originalPr c2 = None then c2\<lparr>originalPr := pr c2\<rparr> else c2)
         in Inr c3))"

subsection \<open>parseCommitMessage\<close>

text \<open>The split of the message into subject and body at the first newline.\<close>

definition split_message :: "string \<Rightarrow> string \<times> string" where
  "split_message commitMessage =
     (if LF \<in> set commitMessage
      then (trim (takeWhile (\<lambda>x. x \<noteq> LF) commitMessage),
            trim (dropWhile (\<lambda>x. x \<noteq> LF) commitMessage))
      else (commitMessage, []))"

text \<open>\<^verbatim>\<open>if (!commit.originalSubject) { commit.originalSubject = subject }\<close>\<close>

definition init_subject :: "string \<Rightarrow> commit \<Rightarrow> commit" where
  "init_subject subj c =
     (if \<not> truthy (originalSubject c) then c\<lparr>originalSubject := Some subj\<rparr> else c)"

text \<open>The body, when it is not empty, and the note found in it.\<close>

definition init_body :: "string \<Rightarrow> commit \<Rightarrow> commit" where
  "init_body b c =
     (if b = [] then c
      else (let c1 = c\<lparr>body := Some b\<rparr>; n = getNoteFromBody (Some b)
            in if truthy n then c1\<lparr>note_text := n\<rparr> else c1))"

text \<open>A subject that ends in \<^verbatim>\<open> (#dddd)\<close>: a pull request; the suffix leaves the subject.\<close>

definition rule_pr_suffix ::
  "string \<Rightarrow> string \<Rightarrow> string \<times> commit \<Rightarrow> error + string \<times> commit" where
  "rule_pr_suffix ownr rp sc =
     (case sc of (subj, c) \<Rightarrow>
        (case exec re_pr_suffix subj of
           None \<Rightarrow> Inr (subj, c)
         | Some m \<Rightarrow>
             bind (setPullRequest c ownr rp (Num (parseInt (grp m 2))))
                  (\<lambda>c'. Inr (grp m 1, c'))))"

text \<open>A subject that begins with \<^verbatim>\<open>word:\<close>: a semantic commit.\<close>

definition rule_semantic :: "string \<times> commit \<Rightarrow> string \<times> commit" where
  "rule_semantic sc =
     (case sc of (subj, c) \<Rightarrow>
        (case exec re_semantic subj of
           None \<Rightarrow> (subj, c)
         | Some m \<Rightarrow> (grp m 2, c\<lparr>type := Some (toLowerCase (grp m 1))\<rparr>)))"

text \<open>
  \<^verbatim>\<open>commit.pr.branch = b\<close>. The assignment changes the object that \<^verbatim>\<open>commit.pr\<close> refers
  to; \<open>shared\<close> says that \<^verbatim>\<open>commit.originalPr\<close> refers to the same object.
\<close>

definition set_branch :: "bool \<Rightarrow> string \<Rightarrow> commit \<Rightarrow> commit" where
  "set_branch shared b c =
     (let c1 = c\<lparr>pr := map_option (\<lambda>p. p\<lparr>pr_branch := Some b\<rparr>) (pr c)\<rparr>
      in if shared then c1\<lparr>originalPr := pr c1\<rparr> else c1)"

text \<open>
  GitHub's merge commits. After \<open>setPullRequest\<close> the property \<^verbatim>\<open>pr\<close> is a new object,
  and \<^verbatim>\<open>originalPr\<close> is that same object exactly when both properties were unset before
  the call.
\<close>

definition rule_merge :: "string \<Rightarrow> string \<Rightarrow> string \<Rightarrow> commit \<Rightarrow> error + commit" where
  "rule_merge ownr rp subj c =
     (case exec re_merge subj of
        None \<Rightarrow> Inr c
      | Some m \<Rightarrow>
          bind (setPullRequest c ownr rp (Num (parseInt (grp m 1))))
               (\<lambda>c'. Inr (set_branch (originalPr c = None \<and> pr c = None) (trim (grp m 2)) c')))"

text \<open>A comment of trop: \<^verbatim>\<open>Backport of #dddd\<close> anywhere in the message.\<close>

definition rule_backport_of :: "string \<Rightarrow> string \<Rightarrow> string \<Rightarrow> commit \<Rightarrow> error + commit" where
  "rule_backport_of commitMessage ownr rp c =
     (case exec re_backport_of commitMessage of
        None \<Rightarrow> Inr c
      | Some m \<Rightarrow> setPullRequest c ownr rp (Num (parseInt (grp m 1))))"

definition truthy_issue :: "nat option \<Rightarrow> bool" where
  "truthy_issue v = (case v of None \<Rightarrow> False | Some n \<Rightarrow> n \<noteq> 0)"

text \<open>\<^verbatim>\<open>if (!commit.type) { commit.type = 'fix' }\<close>\<close>

definition default_fix :: "commit \<Rightarrow> commit" where
  "default_fix c = (if \<not> truthy (type c) then c\<lparr>type := Some ''fix''\<rparr> else c)"

text \<open>An issue-closing keyword in the subject.\<close>

definition rule_closes :: "string \<Rightarrow> commit \<Rightarrow> commit" where
  "rule_closes subj c =
     (case exec re_closes subj of
        None \<Rightarrow> c
      | Some m \<Rightarrow> default_fix (c\<lparr>issueNumber := Some (parseInt (grp m 1))\<rparr>))"

text \<open>\<^verbatim>\<open>p && p.number === n\<close> for a number \<open>n\<close>.\<close>

definition has_number :: "pull option \<Rightarrow> nat \<Rightarrow> bool" where
  "has_number p n = (case p of None \<Rightarrow> False | Some q \<Rightarrow> strict_eq (pr_number q) (Num n))"

text \<open>A markdown link \<^verbatim>\<open>Fixes [#N](https://github.com/o/r/issues/N)\<close>, looked for when no
  issue number is set: a pull request of that number was an issue and is cleared.\<close>

definition rule_md_fixes :: "string \<Rightarrow> commit \<Rightarrow> commit" where
  "rule_md_fixes commitMessage c =
     (if truthy_issue (issueNumber c) then c
      else (case exec re_md_fixes commitMessage of
              None \<Rightarrow> c
            | Some m \<Rightarrow>
                (let n = parseInt (grp m 1);
                     c1 = c\<lparr>issueNumber := Some n\<rparr>;
                     c2 = (if has_number (pr c1) n then c1\<lparr>pr := None\<rparr> else c1);
                     c3 = (if has_number (originalPr c2) n then c2\<lparr>originalPr := None\<rparr>
                           else c2)
                 in default_fix c3)))"

text \<open>Some paragraph of the message, trimmed, starts with \<^verbatim>\<open>BREAKING CHANGE\<close>.\<close>

definition has_breaking :: "string \<Rightarrow> bool" where
  "has_breaking commitMessage =
     list_ex (\<lambda>paragraph. startsWith paragraph ''BREAKING CHANGE'')
       (map trim (split_re re_paragraphs commitMessage))"

definition rule_breaking :: "string \<Rightarrow> commit \<Rightarrow> commit" where
  "rule_breaking commitMessage c =
     (if has_breaking commitMessage then c\<lparr>type := Some ''breaking-change''\<rparr> else c)"

text \<open>A reversion commit.\<close>

definition rule_revert :: "string \<Rightarrow> commit \<Rightarrow> commit" where
  "rule_revert b c =
     (case exec re_revert b of None \<Rightarrow> c | Some m \<Rightarrow> c\<lparr>revertHash := Some (grp m 1)\<rparr>)"

text \<open>A manual backport that names \<^verbatim>\<open>owner/repo#pull\<close>; the number is the matched text.\<close>

definition rule_backport_ref :: "string \<Rightarrow> commit \<Rightarrow> error + commit" where
  "rule_backport_ref commitMessage c =
     (if includes_str (toLowerCase commitMessage) ''backport'' then
        (case exec re_backport_ref commitMessage of
           None \<Rightarrow> Inr c
         | Some m \<Rightarrow>
             if grp m 1 @ ''/'' @ grp m 2 \<in> set FOLLOW_REPOS
             then setPullRequest c (grp m 1) (grp m 2) (Str (grp m 3))
             else Inr c)
      else Inr c)"

text \<open>A manual backport that links to the pull request; the number is the matched text.\<close>

definition rule_backport_url :: "string \<Rightarrow> commit \<Rightarrow> error + commit" where
  "rule_backport_url commitMessage c =
     (if includes_str commitMessage ''ackport'' then
        (case exec re_backport_url commitMessage of
           None \<Rightarrow> Inr c
         | Some m \<Rightarrow>
             if grp m 1 @ ''/'' @ grp m 2 \<in> set FOLLOW_REPOS
             then setPullRequest c (grp m 1) (grp m 2) (Str (grp m 3))
             else Inr c)
      else Inr c)"

text \<open>Legacy commits, looked at when the type is unset or \<^verbatim>\<open>chore\<close>.\<close>

definition rule_legacy :: "string \<Rightarrow> commit \<Rightarrow> commit" where
  "rule_legacy commitMessage c =
     (if \<not> truthy (type c) \<or> type c = Some ''chore'' then
        (let commitMessageLC = toLowerCase commitMessage in
         case exec re_legacy_chore commitMessageLC of
           Some m \<Rightarrow>
             c\<lparr>type := Some (if grp m 1 \<in> set knownTypes then grp m 1 else ''chore'')\<rparr>
         | None \<Rightarrow>
             if exec re_legacy_fix commitMessageLC \<noteq> None then c\<lparr>type := Some ''fix''\<rparr>
             else if exec re_legacy_docs commitMessageLC \<noteq> None then c\<lparr>type := Some ''doc''\<rparr>
             else c)
      else c)"

text \<open>The rules between the pull request of the message and the manual backports:
  issue numbers, breaking changes, reversions.\<close>

definition rules_issue :: "string \<Rightarrow> string \<Rightarrow> string \<Rightarrow> commit \<Rightarrow> commit" where
  "rules_issue commitMessage subj b c =
     rule_revert b (rule_breaking commitMessage (rule_md_fixes commitMessage (rule_closes subj c)))"

text \<open>The rules up to the pull request of the message: subject and body, the suffix of the
  subject, the semantic prefix, merge commits and \<^verbatim>\<open>Backport of\<close>. They give the subject,
  the body and the record.\<close>

definition rules_pull ::
  "string \<Rightarrow> string \<Rightarrow> string \<Rightarrow> commit \<Rightarrow> error + string \<times> string \<times> commit" where
  "rules_pull commitMessage ownr rp c =
     (case split_message commitMessage of (subj0, b) \<Rightarrow>
        bind (rule_pr_suffix ownr rp (subj0, init_body b (init_subject subj0 c))) (\<lambda>sc.
          case rule_semantic sc of (subj, c2) \<Rightarrow>
            bind (rule_merge ownr rp subj c2) (\<lambda>c3.
            bind (rule_backport_of commitMessage ownr rp c3) (\<lambda>c4.
            Inr (subj, b, c4)))))"

definition parseCommitMessage :: "string \<Rightarrow> string \<Rightarrow> string \<Rightarrow> commit \<Rightarrow> error + commit" where
  "parseCommitMessage commitMessage ownr rp c =
     bind (rules_pull commitMessage ownr rp c) (\<lambda>sbc.
       case sbc of (subj, b, c4) \<Rightarrow>
         bind (rule_backport_ref commitMessage (rules_issue commitMessage subj b c4)) (\<lambda>c5.
         bind (rule_backport_url commitMessage c5) (\<lambda>c6.
         Inr ((rule_legacy commitMessage c6)\<lparr>subject := Some (trim subj)\<rparr>))))"

subsection \<open>getNotes: the pool\<close>

text \<open>
  The version-control commands, the metadata service and the \<^verbatim>\<open>semver\<close> library are not part
  of the program. What they return is a parameter of the model: the walk of a repository
  (the hashes reachable from the old reference and the parsed commits of the range), the
  answers of the metadata service, and the functions \<^verbatim>\<open>semver.valid\<close> (the version, a
  string, or \<^verbatim>\<open>null\<close>) and \<^verbatim>\<open>semver.major\<close>.
\<close>

record pool =
  processedHashes :: "string option set"
  commits :: "commit list"

record repo_walk =
  old_hashes :: "string list"
  new_commits :: "commit list"

definition addRepoToPool :: "pool \<Rightarrow> repo_walk \<Rightarrow> pool" where
  "addRepoToPool p w =
     p\<lparr>processedHashes := processedHashes p \<union> Some ` set (old_hashes w),
       commits := commits p @ new_commits w\<rparr>"

text \<open>\<^verbatim>\<open>getDependencyCommits\<close>: the walks of the dependency repositories, one after the other
  (two repositories with gyp, one with GN).\<close>

definition getDependencyCommits :: "pool \<Rightarrow> repo_walk list \<Rightarrow> pool" where
  "getDependencyCommits p walks = foldl addRepoToPool p walks"

text \<open>The test of \<^verbatim>\<open>getNotes\<close>; \<^verbatim>\<open>&&\<close> asks for the major versions only when both
  references are valid.\<close>

definition includeDeps ::
  "(string \<Rightarrow> string option) \<Rightarrow> (string \<Rightarrow> nat) \<Rightarrow> string \<Rightarrow> string \<Rightarrow> bool" where
  "includeDeps valid major fromRef toRef =
     (truthy (valid fromRef) \<and> truthy (valid toRef) \<and> major fromRef = major toRef)"

text \<open>The pool after the walk of electron/electron and, if they are included, of the
  dependencies.\<close>

definition gather ::
  "(string \<Rightarrow> string option) \<Rightarrow> (string \<Rightarrow> nat) \<Rightarrow> repo_walk \<Rightarrow> repo_walk list \<Rightarrow>
   string \<Rightarrow> string \<Rightarrow> pool" where
  "gather valid major electron deps fromRef toRef =
     (let p = addRepoToPool \<lparr>processedHashes = {}, commits = []\<rparr> electron
      in if includeDeps valid major fromRef toRef then getDependencyCommits p deps else p)"

text \<open>Old commits leave the pool.\<close>

definition remove_old :: "pool \<Rightarrow> pool" where
  "remove_old p = p\<lparr>commits := filter (\<lambda>c. hash c \<notin> processedHashes p) (commits p)\<rparr>"

text \<open>\<^verbatim>\<open>commits.find(commit => commit.hash === revertHash)\<close>, as the index of the commit
  found.\<close>

fun find_index :: "('a \<Rightarrow> bool) \<Rightarrow> 'a list \<Rightarrow> nat option" where
  "find_index P [] = None"
| "find_index P (x # xs) = (if P x then Some 0 else map_option Suc (find_index P xs))"

definition set_note :: "nat \<Rightarrow> string \<Rightarrow> commit list \<Rightarrow> commit list" where
  "set_note i n cs = cs[i := (cs ! i)\<lparr>note_text := Some n\<rparr>]"

text \<open>One round of the loop over the pool, for the commit at the index \<open>i\<close>: a commit and
  the commit it reverts are both marked. The records of the pool are changed in place.\<close>

definition cancel_step :: "pool \<Rightarrow> nat \<Rightarrow> pool" where
  "cancel_step p i =
     (case revertHash (commits p ! i) of
        None \<Rightarrow> p
      | Some h \<Rightarrow>
          if h = [] then p
          else (case find_index (\<lambda>c. hash c = Some h) (commits p) of
                  None \<Rightarrow> p
                | Some j \<Rightarrow>
                    p\<lparr>commits := set_note j NO_NOTES (set_note i NO_NOTES (commits p)),
                      processedHashes :=
                        processedHashes p \<union> {hash (commits p ! i), Some h}\<rparr>))"

definition cancel_reverts :: "pool \<Rightarrow> pool" where
  "cancel_reverts p = foldl cancel_step p [0..<length (commits p)]"

subsection \<open>getNotes: following pull requests\<close>

text \<open>The title and the body of a pull request; GitHub gives \<^verbatim>\<open>null\<close> for an empty body.\<close>

record pull_data =
  pd_title :: string
  pd_body :: "string option"

text \<open>\<open>getPullRequest\<close>: \<open>None\<close> stands for an answer without data (a 404).\<close>

type_synonym service = "jsnum \<Rightarrow> string \<Rightarrow> string \<Rightarrow> pull_data option"

text \<open>A body in a template string.\<close>

definition template :: "string option \<Rightarrow> string" where
  "template v = (case v of None \<Rightarrow> ''null'' | Some s \<Rightarrow> s)"

text \<open>
  One round of the loop \<^verbatim>\<open>while (pr && !commit.note)\<close> for a pull request \<open>p\<close>: either the
  loop ends, with an exception or with the record, or it goes on with another pull
  request. \<^verbatim>\<open>commit.pr.number\<close> throws when the parse has cleared \<^verbatim>\<open>commit.pr\<close>.
\<close>

datatype round = Done "error + commit" | Next pull commit

definition follow_round :: "service \<Rightarrow> pull \<Rightarrow> commit \<Rightarrow> round" where
  "follow_round getPullRequest p c =
     (if truthy (note_text c) then Done (Inr c)
      else (case getPullRequest (pr_number p) (pr_owner p) (pr_repo p) of
              None \<Rightarrow> Done (Inr c)
            | Some d \<Rightarrow>
                (let c1 = c\<lparr>note_text := getNoteFromBody (pd_body d)\<rparr> in
                 if truthy (note_text c1) then Done (Inr c1)
                 else (case parseCommitMessage (pd_title d @ [LF, LF] @ template (pd_body d))
                              (pr_owner p) (pr_repo p) c1 of
                         Inl e \<Rightarrow> Done (Inl e)
                       | Inr c2 \<Rightarrow>
                           (case pr c2 of
                              None \<Rightarrow> Done (Inl TypeError)
                            | Some q \<Rightarrow>
                                if \<not> strict_eq (pr_number p) (pr_number q) then Next q c2
                                else Done (Inr c2))))))"

definition is_next :: "round \<Rightarrow> bool" where
  "is_next r = (case r of Done _ \<Rightarrow> False | Next _ _ \<Rightarrow> True)"

definition next_pull :: "round \<Rightarrow> pull option" where
  "next_pull r = (case r of Done _ \<Rightarrow> None | Next q _ \<Rightarrow> Some q)"

definition next_commit :: "round \<Rightarrow> commit \<Rightarrow> commit" where
  "next_commit r c = (case r of Done _ \<Rightarrow> c | Next _ c2 \<Rightarrow> c2)"

definition outcome :: "round \<Rightarrow> commit \<Rightarrow> error + commit" where
  "outcome r c = (case r of Done x \<Rightarrow> x | Next _ _ \<Rightarrow> Inr c)"

text \<open>The loop. It need not end: \<open>None\<close> is a loop that runs forever.\<close>

partial_function (option) follow ::
  "service \<Rightarrow> pull option \<Rightarrow> commit \<Rightarrow> (error + commit) option" where
  "follow getPullRequest p c =
     (if p = None then Some (Inr c)
      else if is_next (follow_round getPullRequest (the p) c)
      then follow getPullRequest (next_pull (follow_round getPullRequest (the p) c))
             (next_commit (follow_round getPullRequest (the p) c) c)
      else Some (outcome (follow_round getPullRequest (the p) c) c))"

text \<open>The loop over the pool: an exception or a loop that never ends stops everything.\<close>

fun scrape :: "service \<Rightarrow> commit list \<Rightarrow> (error + commit list) option" where
  "scrape getPullRequest [] = Some (Inr [])"
| "scrape getPullRequest (c # cs) =
     (case follow getPullRequest (pr c) c of
        None \<Rightarrow> None
      | Some (Inl e) \<Rightarrow> Some (Inl e)
      | Some (Inr c') \<Rightarrow>
          (case scrape getPullRequest cs of
             None \<Rightarrow> None
           | Some (Inl e) \<Rightarrow> Some (Inl e)
           | Some (Inr cs') \<Rightarrow> Some (Inr (c' # cs'))))"

subsection \<open>getNotes: the buckets\<close>

text \<open>\<^verbatim>\<open>(commit.note || commit.subject).match(/^[Bb]ump v\d+\.\d+\.\d+/)\<close>; the call throws
  when there is neither a note nor a subject.\<close>

definition is_bump :: "commit \<Rightarrow> error + bool" where
  "is_bump c =
     (case (if truthy (note_text c) then note_text c else subject c) of
        None \<Rightarrow> Inl TypeError
      | Some s \<Rightarrow> Inr (exec re_bump s \<noteq> None))"

fun drop_bumps :: "commit list \<Rightarrow> error + commit list" where
  "drop_bumps [] = Inr []"
| "drop_bumps (c # cs) =
     bind (is_bump c) (\<lambda>b. bind (drop_bumps cs) (\<lambda>cs'. Inr (if b then cs' else c # cs')))"

text \<open>Uninteresting commits leave the pool: those marked to have no notes, and version
  bumps.\<close>

definition remove_uninteresting :: "commit list \<Rightarrow> error + commit list" where
  "remove_uninteresting cs = drop_bumps (filter (\<lambda>c. note_text c \<noteq> Some NO_NOTES) cs)"

record release_notes =
  breaks :: "commit list"
  docs :: "commit list"
  feat :: "commit list"
  fix_bucket :: "commit list"
  other :: "commit list"
  unknown :: "commit list"
  ref :: string

datatype bucket = Breaks | Docs | Feat | Fix | Other | Unknown

definition bucket_of :: "commit \<Rightarrow> bucket" where
  "bucket_of c =
     (case type c of
        None \<Rightarrow> Unknown
      | Some str \<Rightarrow>
          if str = [] then Unknown
          else if str \<in> set breakTypes then Breaks
          else if str \<in> set docTypes then Docs
          else if str \<in> set featTypes then Feat
          else if str \<in> set fixTypes then Fix
          else if str \<in> set otherTypes then Other
          else Unknown)"

definition classify :: "commit list \<Rightarrow> string \<Rightarrow> release_notes" where
  "classify cs toRef =
     \<lparr>breaks = filter (\<lambda>c. bucket_of c = Breaks) cs,
      docs = filter (\<lambda>c. bucket_of c = Docs) cs,
      feat = filter (\<lambda>c. bucket_of c = Feat) cs,
      fix_bucket = filter (\<lambda>c. bucket_of c = Fix) cs,
      other = filter (\<lambda>c. bucket_of c = Other) cs,
      unknown = filter (\<lambda>c. bucket_of c = Unknown) cs,
      ref = toRef\<rparr>"

text \<open>The part of \<open>getNotes\<close> after the pool is gathered and old commits are removed.\<close>

definition finish :: "service \<Rightarrow> pool \<Rightarrow> string \<Rightarrow> (error + release_notes) option" where
  "finish getPullRequest p toRef =
     (case scrape getPullRequest (commits (cancel_reverts p)) of
        None \<Rightarrow> None
      | Some (Inl e) \<Rightarrow> Some (Inl e)
      | Some (Inr cs) \<Rightarrow>
          (case remove_uninteresting cs of
             Inl e \<Rightarrow> Some (Inl e)
           | Inr cs' \<Rightarrow> Some (Inr (classify cs' toRef))))"

definition getNotes ::
  "(string \<Rightarrow> string option) \<Rightarrow> (string \<Rightarrow> nat) \<Rightarrow> service \<Rightarrow> repo_walk \<Rightarrow> repo_walk list \<Rightarrow>
   string \<Rightarrow> string \<Rightarrow> (error + release_notes) option" where
  "getNotes valid major getPullRequest electron deps fromRef toRef =
     finish getPullRequest (remove_old (gather valid major electron deps fromRef toRef)) toRef"

subsection \<open>Rendering\<close>

text \<open>A property in a template string; a missing one reads \<^verbatim>\<open>undefined\<close>.\<close>

definition interpolate :: "string option \<Rightarrow> string" where
  "interpolate v = (case v of None \<Rightarrow> ''undefined'' | Some s \<Rightarrow> s)"

definition commonVerbs :: "(string \<times> string list) list" where
  "commonVerbs =
     [(''Added'', [''Add'']), (''Backported'', [''Backport'']), (''Cleaned'', [''Clean'']),
      (''Disabled'', [''Disable'']), (''Ensured'', [''Ensure'']), (''Exported'', [''Export'']),
      (''Fixed'', [''Fix'', ''Fixes'']), (''Handled'', [''Handle'']),
      (''Improved'', [''Improve'']), (''Made'', [''Make'']), (''Removed'', [''Remove'']),
      (''Repaired'', [''Repair'']), (''Reverted'', [''Revert'']), (''Stopped'', [''Stop'']),
      (''Updated'', [''Update'']), (''Upgraded'', [''Upgrade''])]"

text \<open>One round of the two loops over the verbs: a leading \<open>value\<close> becomes \<open>key\<close>.\<close>

definition replace_verb :: "string \<Rightarrow> string \<times> string \<Rightarrow> string" where
  "replace_verb n kv =
     (case kv of (key, val) \<Rightarrow>
        (let start = val @ '' '' in
         if startsWith n start then key @ '' '' @ drop (length start) n else n))"

definition clean_up :: "string \<Rightarrow> string" where
  "clean_up n0 =
     (let n = trim n0 in
      if n = [] then n
      else (let n1 = upper_char (hd n) # tl n;
                n2 = (if \<not> endsWith n1 ''.'' then n1 @ ''.'' else n1)
            in foldl replace_verb n2
                 (concat (map (\<lambda>(key, vals). map (\<lambda>val. (key, val)) vals) commonVerbs))))"

text \<open>The link of a commit, from its original pull request.\<close>

definition link_of :: "commit \<Rightarrow> string" where
  "link_of c =
     (case originalPr c of
        None \<Rightarrow>
          ''https://github.com/'' @ interpolate (owner c) @ ''/'' @ interpolate (repo c) @
          ''/commit/'' @ interpolate (hash c)
      | Some p \<Rightarrow>
          if pr_owner p = ''electron'' \<and> pr_repo p = ''electron''
          then ''#'' @ show_num (pr_number p)
          else ''['' @ pr_owner p @ ''/'' @ pr_repo p @ '':'' @ show_num (pr_number p) @
               ''](https://github.com/'' @ pr_owner p @ ''/'' @ pr_repo p @ ''/pull/'' @
               show_num (pr_number p) @ '')'')"

text \<open>\<open>renderCommit\<close>: the note and the link. \<^verbatim>\<open>note.trim()\<close> throws when the commit has
  neither a note nor a subject.\<close>

definition renderCommit :: "commit \<Rightarrow> error + string \<times> string" where
  "renderCommit c =
     (case (if truthy (note_text c) then note_text c else subject c) of
        None \<Rightarrow> Inl TypeError
      | Some n \<Rightarrow> Inr (clean_up n, link_of c))"

text \<open>\<^verbatim>\<open>commits.map(f)\<close> for an \<open>f\<close> that may throw.\<close>

fun map_throwing :: "('a \<Rightarrow> error + 'b) \<Rightarrow> 'a list \<Rightarrow> error + 'b list" where
  "map_throwing f [] = Inr []"
| "map_throwing f (x # xs) =
     bind (f x) (\<lambda>y. bind (map_throwing f xs) (\<lambda>ys. Inr (y # ys)))"

text \<open>The map from notes to links, in the order in which the notes came in: a link joins
  the links of its note, a new note goes to the end.\<close>

definition add_link :: "(string \<times> string list) list \<Rightarrow> string \<times> string \<Rightarrow> (string \<times> string list) list" where
  "add_link m nl =
     (case nl of (n, l) \<Rightarrow>
        if n \<in> fst ` set m
        then map (\<lambda>(k, ls). if k = n then (k, ls @ [l]) else (k, ls)) m
        else m @ [(n, [l])])"

definition bullet :: "string \<times> string list \<Rightarrow> string" where
  "bullet e = (case e of (key, links) \<Rightarrow> '' * '' @ key @ '' '' @ join '', '' (sort links) @ [LF])"

text \<open>\<open>renderSection\<close>: the strings it pushes. \<^verbatim>\<open>sort()\<close> orders strings by their code units.\<close>

definition renderSection :: "string \<Rightarrow> commit list \<Rightarrow> error + string list" where
  "renderSection title cs =
     (if cs = [] then Inr []
      else bind (map_throwing renderCommit cs) (\<lambda>rs.
             Inr ([''## '' @ title @ [LF, LF]] @ sort (map bullet (foldl add_link [] rs)) @
                  [[LF]])))"

text \<open>The documentation section lists links only.\<close>

definition doc_link :: "commit \<Rightarrow> string" where
  "doc_link c =
     (case pr c of
        None \<Rightarrow> ''https://github.com/electron/electron/commit/'' @ interpolate (hash c)
      | Some p \<Rightarrow>
          if truthy_num (pr_number p) then ''#'' @ show_num (pr_number p)
          else ''https://github.com/electron/electron/commit/'' @ interpolate (hash c))"

definition renderDocs :: "commit list \<Rightarrow> string list" where
  "renderDocs cs =
     (if cs = [] then []
      else [''## Documentation'' @ [LF, LF],
            '' * Documentation changes: '' @ join '', '' (sort (map doc_link cs)) @ [LF],
            [LF]])"

definition renderNotes :: "release_notes \<Rightarrow> error + string" where
  "renderNotes n =
     bind (renderSection ''Breaking Changes'' (breaks n)) (\<lambda>s1.
     bind (renderSection ''Features'' (feat n)) (\<lambda>s2.
     bind (renderSection ''Fixes'' (fix_bucket n)) (\<lambda>s3.
     bind (renderSection ''Other Changes'' (other n)) (\<lambda>s4.
     bind (renderSection ''Unknown'' (unknown n)) (\<lambda>s5.
       Inr (concat ([''# Release Notes for '' @ ref n @ [LF, LF]] @ s1 @ s2 @ s3 @ s4 @
                    renderDocs (docs n) @ s5)))))))"

section \<open>Auxiliary definitions and examples for the properties\<close>

text \<open>The notes that stand for "no notes": \<^verbatim>\<open>No notes\<close>, \<^verbatim>\<open>no_notes\<close>, \<^verbatim>\<open>no-Notes.\<close> and so
  on, and \<^verbatim>\<open>None\<close>, \<^verbatim>\<open>none.\<close> and so on. Only the first letter of a word may be a capital.\<close>

definition no_notes_spellings :: "string list" where
  "no_notes_spellings =
     [n1 @ ''o'' @ sep @ n2 @ ''otes'' @ dot.
        n1 \<leftarrow> [''N'', ''n''], sep \<leftarrow> ['' '', ''_'', ''-''], n2 \<leftarrow> [''N'', ''n''],
        dot \<leftarrow> ['''', ''.'']]"

definition none_spellings :: "string list" where
  "none_spellings = [n1 @ ''one'' @ dot. n1 \<leftarrow> [''N'', ''n''], dot \<leftarrow> ['''', ''.'']]"

text \<open>A message with the semantic prefix \<^verbatim>\<open>fix\<close> and a breaking-change paragraph.\<close>

definition breaking_example :: string where
  "breaking_example = ''fix: x\<newline>\<newline>BREAKING CHANGE: y''"

text \<open>The number of the pull request of a record, when it has one.\<close>

definition pr_number_of :: "commit \<Rightarrow> jsnum option" where
  "pr_number_of c = map_option pr_number (pr c)"

text \<open>A sequence of enrichment passes over one record: each pass parses a message for an
  owner and a repository, as the first parse of a commit and the later parses of the titles
  and bodies of its pull requests do.\<close>

fun parse_passes :: "(string \<times> string \<times> string) list \<Rightarrow> commit \<Rightarrow> error + commit" where
  "parse_passes [] c = Inr c"
| "parse_passes ((commitMessage, ownr, rp) # ps) c =
     bind (parseCommitMessage commitMessage ownr rp c) (parse_passes ps)"

text \<open>The message has a markdown link \<^verbatim>\<open>Fixes [#N](...)\<close> whose \<open>N\<close> is the number \<open>n\<close>.\<close>

definition md_fixes_names :: "string \<Rightarrow> jsnum \<Rightarrow> bool" where
  "md_fixes_names commitMessage n =
     (case exec re_md_fixes commitMessage of
        None \<Rightarrow> False
      | Some m \<Rightarrow> strict_eq n (Num (parseInt (grp m 1))))"

text \<open>The record after the parse of \<^verbatim>\<open>x (#1)\<close> for the repository \<^verbatim>\<open>a/b\<close>.\<close>

definition first_pass :: commit where
  "first_pass = projr (parseCommitMessage ''x (#1)'' ''a'' ''b'' empty_commit)"

definition pull_one :: pull where
  "pull_one = \<lparr>pr_owner = ''a'', pr_repo = ''b'', pr_number = Num 1, pr_branch = None\<rparr>"

text \<open>
  Two parses of one message, side by side: the first from the empty record, the second from
  the record \<open>c1\<close> that the first returns. The relation \<open>agree c1 a t\<close> holds between the
  records \<open>a\<close> of the first and \<open>t\<close> of the second parse after the same rule: every property
  of \<open>t\<close> has the value it has in \<open>a\<close> or the value it has in \<open>c1\<close>.
\<close>

definition J :: "'a \<Rightarrow> 'a \<Rightarrow> 'a \<Rightarrow> bool" where
  "J x y z \<longleftrightarrow> x = y \<or> x = z"

definition agree :: "commit \<Rightarrow> commit \<Rightarrow> commit \<Rightarrow> bool" where
  "agree c1 a t \<longleftrightarrow>
     J (email t) (email a) (email c1) \<and>
     J (hash t) (hash a) (hash c1) \<and>
     J (owner t) (owner a) (owner c1) \<and>
     J (repo t) (repo a) (repo c1) \<and>
     J (parentHashes t) (parentHashes a) (parentHashes c1) \<and>
     J (originalSubject t) (originalSubject a) (originalSubject c1) \<and>
     J (body t) (body a) (body c1) \<and>
     J (note_text t) (note_text a) (note_text c1) \<and>
     J (pr t) (pr a) (pr c1) \<and>
     originalPr t = originalPr c1 \<and>
     J (type t) (type a) (type c1) \<and>
     J (issueNumber t) (issueNumber a) (issueNumber c1) \<and>
     J (revertHash t) (revertHash a) (revertHash c1) \<and>
     J (subject t) (subject a) (subject c1)"

text \<open>What a record \<open>a\<close> of the first parse tells about its result \<open>c1\<close>, and what a rule
  that turns \<open>a\<close> into \<open>a'\<close> keeps.\<close>

definition future :: "commit \<Rightarrow> commit \<Rightarrow> bool" where
  "future c1 a \<longleftrightarrow>
     (truthy (type a) \<longrightarrow> truthy (type c1)) \<and>
     (originalPr a \<noteq> None \<longrightarrow> originalPr c1 = originalPr a)"

definition keeps :: "commit \<Rightarrow> commit \<Rightarrow> bool" where
  "keeps a a' \<longleftrightarrow>
     (truthy (type a) \<longrightarrow> truthy (type a')) \<and>
     (originalPr a \<noteq> None \<longrightarrow> originalPr a' = originalPr a)"

text \<open>A message whose markdown link names the number of its own pull request, and the
  records that the first and the second parse of it return.\<close>

definition md_example :: string where
  "md_example = ''x (#1)\<newline>\<newline>Fixes [#1](https://github.com/a/b/issues/1)''"

definition md_first :: commit where
  "md_first =
     empty_commit\<lparr>originalSubject := Some ''x (#1)'',
       body := Some ''Fixes [#1](https://github.com/a/b/issues/1)'',
       type := Some ''fix'', issueNumber := Some 1, subject := Some ''x''\<rparr>"

definition md_second :: commit where
  "md_second = md_first\<lparr>pr := Some pull_one, originalPr := Some pull_one\<rparr>"

text \<open>The markdown rule clears nothing in the parse of a message from the empty record: the
  record has the pull request and the original pull request after the rule that it had
  before. It is so when the rule is skipped, when the message has no such link, and when the
  link names a number that no pull request of the record has.\<close>

definition md_clears_nothing :: "string \<Rightarrow> string \<Rightarrow> string \<Rightarrow> bool" where
  "md_clears_nothing m ownr rp =
     (case rules_pull m ownr rp empty_commit of
        Inl e \<Rightarrow> True
      | Inr (subj, b, c) \<Rightarrow>
          pr (rule_md_fixes m (rule_closes subj c)) = pr c \<and>
          originalPr (rule_md_fixes m (rule_closes subj c)) = originalPr c)"

text \<open>A message whose markdown link names another number than its pull request.\<close>

definition other_example :: string where
  "other_example = ''x (#2)\<newline>\<newline>Fixes [#1](https://github.com/a/b/issues/1)''"

text \<open>
  Two pull requests of electron/electron that name each other: the body of the pull
  request 1 says \<^verbatim>\<open>Backport of #2\<close>, the body of the pull request 2 says
  \<^verbatim>\<open>Backport of #1\<close>. The record \<open>cyc0\<close> is the parse of the commit message \<^verbatim>\<open>x (#1)\<close>;
  \<open>cyc1\<close> and \<open>cyc2\<close> are the records after one and two rounds of the loop.
\<close>

definition cyc :: service where
  "cyc number ownr rp =
     (if number = Num 1 then Some \<lparr>pd_title = ''a'', pd_body = Some ''Backport of #2''\<rparr>
      else if number = Num 2 then Some \<lparr>pd_title = ''b'', pd_body = Some ''Backport of #1''\<rparr>
      else None)"

definition pull_e1 :: pull where
  "pull_e1 =
     \<lparr>pr_owner = ''electron'', pr_repo = ''electron'', pr_number = Num 1, pr_branch = None\<rparr>"

definition pull_e2 :: pull where
  "pull_e2 =
     \<lparr>pr_owner = ''electron'', pr_repo = ''electron'', pr_number = Num 2, pr_branch = None\<rparr>"

definition cyc0 :: commit where
  "cyc0 =
     empty_commit\<lparr>originalSubject := Some ''x (#1)'', pr := Some pull_e1,
       originalPr := Some pull_e1, subject := Some ''x''\<rparr>"

definition cyc1 :: commit where
  "cyc1 = cyc0\<lparr>body := Some ''Backport of #2'', pr := Some pull_e2, subject := Some ''a''\<rparr>"

definition cyc2 :: commit where
  "cyc2 = cyc0\<lparr>body := Some ''Backport of #1'', pr := Some pull_e1, subject := Some ''b''\<rparr>"

text \<open>A service under which the pull requests 1 and 2 have the title \<^verbatim>\<open>a\<close> and the body
  \<^verbatim>\<open>Backport of #1\<close>, and every other pull request has the title \<^verbatim>\<open>a\<close> and the body \<^verbatim>\<open>b\<close>:
  the pull request 2 names the pull request 1, the pull request 1 names itself, and the
  others name no pull request. \<open>self_message\<close> and \<open>plain_message\<close> are the two messages that
  the loop parses, and \<open>to_one\<close> is a measure that goes down along a followed reference.\<close>

definition chain :: service where
  "chain number ownr rp =
     (if number = Num 1 \<or> number = Num 2
      then Some \<lparr>pd_title = ''a'', pd_body = Some ''Backport of #1''\<rparr>
      else Some \<lparr>pd_title = ''a'', pd_body = Some ''b''\<rparr>)"

definition self_message :: string where
  "self_message = ''a'' @ [LF, LF] @ ''Backport of #1''"

definition plain_message :: string where
  "plain_message = ''a'' @ [LF, LF] @ ''b''"

definition to_one :: "pull \<Rightarrow> nat" where
  "to_one p = (if pr_number p = Num 1 then 0 else 1)"

text \<open>A pool of three commits: a feature, the commit that reverts it, and a fix. No pull
  request is known to the service. \<open>marked_a\<close> and \<open>marked_b\<close> are the first two commits
  once they are marked.\<close>

definition no_service :: service where
  "no_service number ownr rp = None"

definition commit_a :: commit where
  "commit_a = empty_commit\<lparr>hash := Some ''aa'', type := Some ''feat'', subject := Some ''add x''\<rparr>"

definition commit_b :: commit where
  "commit_b =
     empty_commit\<lparr>hash := Some ''bb'', revertHash := Some ''aa'',
       subject := Some ''Revert add x''\<rparr>"

definition commit_c :: commit where
  "commit_c = empty_commit\<lparr>hash := Some ''cc'', type := Some ''fix'', subject := Some ''fix y''\<rparr>"

definition revert_pool :: pool where
  "revert_pool = \<lparr>processedHashes = {}, commits = [commit_a, commit_b, commit_c]\<rparr>"

definition marked_a :: commit where
  "marked_a = commit_a\<lparr>note_text := Some NO_NOTES\<rparr>"

definition marked_b :: commit where
  "marked_b = commit_b\<lparr>note_text := Some NO_NOTES\<rparr>"

text \<open>The links of the rendered commits that have the note \<open>n\<close>, in their order; and a map
  from notes to links that groups the rendered commits \<open>rs\<close>.\<close>

definition links_of :: "string \<Rightarrow> (string \<times> string) list \<Rightarrow> string list" where
  "links_of n rs = map snd (filter (\<lambda>r. fst r = n) rs)"

definition grouped :: "(string \<times> string list) list \<Rightarrow> (string \<times> string) list \<Rightarrow> bool" where
  "grouped m rs \<longleftrightarrow>
     distinct (map fst m) \<and> fst ` set m = fst ` set rs
     \<and> list_all (\<lambda>e. snd e = links_of (fst e) rs) m"

text \<open>Three commits of a section: two with the same rendered note and different links, and
  a third; and the strings of their section.\<close>

definition render_a :: commit where
  "render_a =
     empty_commit\<lparr>note_text := Some ''fix x'',
       originalPr := Some \<lparr>pr_owner = ''electron'', pr_repo = ''electron'',
                            pr_number = Num 12, pr_branch = None\<rparr>\<rparr>"

definition render_b :: commit where
  "render_b =
     empty_commit\<lparr>subject := Some ''Fix x.'',
       originalPr := Some \<lparr>pr_owner = ''electron'', pr_repo = ''electron'',
                            pr_number = Num 7, pr_branch = None\<rparr>\<rparr>"

definition render_c :: commit where
  "render_c =
     empty_commit\<lparr>subject := Some ''add y'', owner := Some ''o'', repo := Some ''r'',
       hash := Some ''cc''\<rparr>"

definition render_out :: "string list" where
  "render_out =
     [''## Fixes\<newline>\<newline>'',
      '' * Added y. https://github.com/o/r/commit/cc\<newline>'',
      '' * Fixed x. #12, #7\<newline>'',
      ''\<newline>'']"

section \<open>Properties\<close>

subsection \<open>Facts about the matcher\<close>

lemma rmatch_Seq_Lit:
  "rmatch (Seq (Lit c) r) (p, s, cs) =
     (case s of [] \<Rightarrow> [] | x # xs \<Rightarrow> if x = c then rmatch r (Some x, xs, cs) else [])"
  by (simp add: step_char_def split: list.splits)

lemma rmatch_Seq_Cls:
  "rmatch (Seq (Cls k) r) (p, s, cs) =
     (case s of [] \<Rightarrow> [] | x # xs \<Rightarrow> if x \<in> set k then rmatch r (Some x, xs, cs) else [])"
  by (simp add: step_char_def split: list.splits)

lemma rmatch_Seq_opt:
  "rmatch (Seq (opt a) r) st = rmatch (Seq a r) st @ rmatch r st"
  by (simp add: opt_def)

lemma rmatch_Seq_Eol_Eps:
  "rmatch (Seq Eol Eps) (p, s, cs) = (if s = [] then [(p, s, cs)] else [])"
  by simp

lemma rmatch_Seq_Eps: "rmatch (Seq Eps r) st = rmatch r st"
  by simp

lemma concat_map_concat:
  "concat (map f (concat (map g xs))) = concat (map (\<lambda>x. concat (map f (g x))) xs)"
  by (induction xs) simp_all

lemma rmatch_Seq_assoc: "rmatch (Seq (Seq a b) r) st = rmatch (Seq a (Seq b r)) st"
  by (simp add: concat_map_concat)

lemma seqs_Cons: "seqs (r # rs) = Seq r (seqs rs)" "seqs [] = Eps"
  by (simp_all add: seqs_def)

lemmas rmatch_seq_simps =
  rmatch_Seq_Cls rmatch_Seq_Lit rmatch_Seq_opt rmatch_Seq_assoc rmatch_Seq_Eps
  rmatch_Seq_Eol_Eps lits_def seqs_Cons

text \<open>A pattern that begins with \<^verbatim>\<open>^\<close> matches at the start of the input or nowhere.\<close>

lemma search_Bol_later: "search (Seq Bol r) pre (Some c) s = None"
  by (induction s arbitrary: pre c) simp_all

lemma exec_Bol:
  "exec (Seq Bol r) s \<noteq> None \<longleftrightarrow> rmatch r (None, s, []) \<noteq> []"
  by (cases s) (auto simp: exec_def search_Bol_later split: list.splits)

lemma re_none_iff: "exec re_none n \<noteq> None \<longleftrightarrow> n \<in> set none_spellings"
  unfolding re_none_def seqs_Cons exec_Bol
  by (simp add: rmatch_seq_simps none_spellings_def split: list.splits del: rmatch.simps)

lemma re_no_notes_iff: "exec re_no_notes n \<noteq> None \<longleftrightarrow> n \<in> set no_notes_spellings"
  unfolding re_no_notes_def seqs_Cons exec_Bol
  by (simp add: rmatch_seq_simps no_notes_spellings_def split: list.splits del: rmatch.simps)

lemma spellings_listed:
  "no_notes_spellings @ none_spellings =
     [''No Notes'', ''No Notes.'', ''No notes'', ''No notes.'',
      ''No_Notes'', ''No_Notes.'', ''No_notes'', ''No_notes.'',
      ''No-Notes'', ''No-Notes.'', ''No-notes'', ''No-notes.'',
      ''no Notes'', ''no Notes.'', ''no notes'', ''no notes.'',
      ''no_Notes'', ''no_Notes.'', ''no_notes'', ''no_notes.'',
      ''no-Notes'', ''no-Notes.'', ''no-notes'', ''no-notes.'',
      ''None'', ''None.'', ''none'', ''none.'']"
  by (simp add: no_notes_spellings_def none_spellings_def)

text \<open>The groups of a match are those of one way the pattern matches somewhere.\<close>

lemma search_groups:
  "search r pre p s = Some m \<Longrightarrow> \<exists>p' s' st. st \<in> set (rmatch r (p', s', [])) \<and> groups m = snd (snd st)"
proof (induction s arbitrary: pre p)
  case Nil
  then show ?case
    by (cases "rmatch r (p, [], [])") (auto, metis list.set_intros(1) snd_conv)
next
  case (Cons x xs)
  show ?case
  proof (cases "rmatch r (p, x # xs, [])")
    case Nil
    with Cons show ?thesis by simp
  next
    case (Cons st sts)
    with Cons.prems have "groups m = snd (snd st)" by auto
    moreover have "st \<in> set (rmatch r (p, x # xs, []))" using Cons by simp
    ultimately show ?thesis by blast
  qed
qed

lemma exec_groups:
  "exec r s = Some m \<Longrightarrow> \<exists>p' s' st. st \<in> set (rmatch r (p', s', [])) \<and> groups m = snd (snd st)"
  unfolding exec_def by (rule search_groups)

lemma in_rmatch_Seq:
  "st \<in> set (rmatch (Seq a b) st0) \<longleftrightarrow> (\<exists>st1 \<in> set (rmatch a st0). st \<in> set (rmatch b st1))"
  by auto

lemma in_step_char:
  "st \<in> set (step_char P st0) \<Longrightarrow>
     rest_len st < rest_len st0 \<and> snd (snd st) = snd (snd st0)
     \<and> (\<exists>x. fst (snd st0) = x # fst (snd st))"
  by (auto simp: step_char_def rest_len_def split: prod.splits list.splits if_splits)

lemma in_star:
  "st \<in> set (star f n st0) \<Longrightarrow> (\<And>a b. b \<in> set (f a) \<Longrightarrow> snd (snd b) = snd (snd a) \<and> (\<exists>x. fst (snd a) = x # fst (snd b))) \<Longrightarrow>
     snd (snd st) = snd (snd st0) \<and> (\<exists>xs. fst (snd st0) = xs @ fst (snd st))"
proof (induction n arbitrary: st0)
  case 0
  then show ?case by simp
next
  case (Suc n)
  from Suc.prems(1) consider "st = st0"
    | st1 where "st1 \<in> set (f st0)" "st \<in> set (star f n st1)"
    by auto
  then show ?case
  proof cases
    case 1
    then show ?thesis by simp
  next
    case 2
    from Suc.IH [OF 2(2) Suc.prems(2)] Suc.prems(2) [OF 2(1)]
    show ?thesis by (metis append_Cons)
  qed
qed

lemma in_plus_class:
  assumes "st \<in> set (rmatch (plus (Cls k)) st0)"
  shows "snd (snd st) = snd (snd st0) \<and> (\<exists>x xs. fst (snd st0) = x # xs @ fst (snd st))"
proof -
  from assms obtain st1 where
    1: "st1 \<in> set (step_char (\<lambda>x. x \<in> set k) st0)"
    and 2: "st \<in> set (star (step_char (\<lambda>x. x \<in> set k)) (rest_len st1) st1)"
    by (auto simp: plus_def)
  from in_star [OF 2] in_step_char
  have "snd (snd st) = snd (snd st1) \<and> (\<exists>xs. fst (snd st1) = xs @ fst (snd st))"
    by blast
  with in_step_char [OF 1] show ?thesis by auto
qed

lemma in_group_plus_class:
  assumes "st \<in> set (rmatch (Grp i (plus (Cls k))) st0)"
  shows "\<exists>g. g \<noteq> [] \<and> snd (snd st) = (i, g) # snd (snd st0)"
proof -
  from assms obtain st1 where 1: "st1 \<in> set (rmatch (plus (Cls k)) st0)"
    and 2: "st = set_group i (fst (snd st0)) st1"
    by auto
  from in_plus_class [OF 1] obtain x xs where
    "snd (snd st1) = snd (snd st0)" "fst (snd st0) = x # xs @ fst (snd st1)"
    by blast
  with 2 show ?thesis
    by (cases st1) (auto simp: set_group_def)
qed

lemma in_rmatch_Lit:
  "st \<in> set (rmatch (Lit c) st0) \<Longrightarrow> snd (snd st) = snd (snd st0)"
  by (auto dest: in_step_char)

lemma in_rmatch_Wordb:
  "st \<in> set (rmatch Wordb st0) \<Longrightarrow> st = st0"
  by (auto split: if_splits)

lemma backport_ref_groups:
  assumes "exec re_backport_ref m = Some mt"
  shows "grp mt 1 \<noteq> [] \<and> grp mt 2 \<noteq> [] \<and> grp mt 3 \<noteq> []"
proof -
  from exec_groups [OF assms] obtain p s st where
    st: "st \<in> set (rmatch re_backport_ref (p, s, []))" and g: "groups mt = snd (snd st)"
    by blast
  from st obtain g1 g2 g3 where "g1 \<noteq> []" "g2 \<noteq> []" "g3 \<noteq> []"
    "snd (snd st) = [(3, g3), (2, g2), (1, g1)]"
    unfolding re_backport_ref_def seqs_Cons in_rmatch_Seq rx_w_def rx_d_def
    by (fastforce dest!: in_group_plus_class in_rmatch_Lit in_rmatch_Wordb)
  with g show ?thesis by (simp add: grp_def)
qed

subsection \<open>What the rules leave alone\<close>

lemma setPullRequest_type:
  "setPullRequest c ownr rp n = Inr c' \<Longrightarrow> type c' = type c"
  by (auto simp: setPullRequest_def Let_def split: if_splits)

lemma rule_revert_type: "type (rule_revert b c) = type c"
  by (simp add: rule_revert_def split: option.splits)

lemma rule_backport_ref_type:
  "rule_backport_ref m c = Inr c' \<Longrightarrow> type c' = type c"
  by (auto simp: rule_backport_ref_def split: if_splits option.splits dest: setPullRequest_type)

lemma rule_backport_url_type:
  "rule_backport_url m c = Inr c' \<Longrightarrow> type c' = type c"
  by (auto simp: rule_backport_url_def split: if_splits option.splits dest: setPullRequest_type)

lemma rule_legacy_breaking:
  "type c = Some ''breaking-change'' \<Longrightarrow> type (rule_legacy m c) = Some ''breaking-change''"
  by (simp add: rule_legacy_def truthy_def)

lemma rules_issue_breaking:
  "has_breaking m \<Longrightarrow> type (rules_issue m subj b c) = Some ''breaking-change''"
  by (simp add: rules_issue_def rule_revert_type rule_breaking_def)

subsection \<open>Breaking changes\<close>

text \<open>
  Claim C7. When some paragraph of the message starts with \<^verbatim>\<open>BREAKING CHANGE\<close>, every
  record that \<open>parseCommitMessage\<close> returns has the type \<^verbatim>\<open>breaking-change\<close>, whatever
  record it started from and whatever semantic prefix, issue keyword or legacy pattern the
  message also has: the rules after the breaking-change rule do not touch the type, and the
  legacy rule only looks at records whose type is unset or \<^verbatim>\<open>chore\<close>. (The function
  returns unless \<open>setPullRequest\<close> throws.)
\<close>

theorem breaking_change_wins:
  assumes "has_breaking commitMessage"
    and "parseCommitMessage commitMessage ownr rp c = Inr c'"
  shows "type c' = Some ''breaking-change''"
proof -
  obtain subj0 b where sm: "split_message commitMessage = (subj0, b)"
    by (cases "split_message commitMessage")
  from assms(2) sm obtain subj c4 c5 c6 where
    c5: "rule_backport_ref commitMessage (rules_issue commitMessage subj b c4) = Inr c5"
    and c6: "rule_backport_url commitMessage c5 = Inr c6"
    and c': "c' = (rule_legacy commitMessage c6)\<lparr>subject := Some (trim subj)\<rparr>"
    by (auto simp: parseCommitMessage_def rules_pull_def bind_def split: sum.splits prod.splits)
  have "type c5 = Some ''breaking-change''"
    using rule_backport_ref_type [OF c5] rules_issue_breaking [OF assms(1)] by simp
  then have "type c6 = Some ''breaking-change''"
    using rule_backport_url_type [OF c6] by simp
  then show ?thesis
    using c' by (simp add: rule_legacy_breaking)
qed

theorem breaking_change_wins_witness:
  "has_breaking breaking_example
   \<and> \<not> isl (parseCommitMessage breaking_example ''electron'' ''electron'' empty_commit)
   \<and> type (projr (parseCommitMessage breaking_example ''electron'' ''electron'' empty_commit))
       = Some ''breaking-change''"
proof -
  have h: "has_breaking breaking_example"
    by code_simp
  have r: "\<not> isl (parseCommitMessage breaking_example ''electron'' ''electron'' empty_commit)"
    by code_simp
  then obtain c' where
    p: "parseCommitMessage breaking_example ''electron'' ''electron'' empty_commit = Inr c'"
    by (cases "parseCommitMessage breaking_example ''electron'' ''electron'' empty_commit") auto
  show ?thesis
    using h r p breaking_change_wins [OF h p] by simp
qed

subsection \<open>Notes\<close>

text \<open>
  Claim C6, at the body \<^verbatim>\<open>Notes: a\nb\nc\<close>. The pattern that replaces newlines has no
  global flag, so only the first newline of the paragraph becomes a space: the note that
  comes back is \<^verbatim>\<open>a b\nc\<close> and still holds a newline.
\<close>

theorem note_keeps_second_newline:
  "getNoteFromBody (Some ''Notes: a\<newline>b\<newline>c'') = Some ''a b\<newline>c''
   \<and> LF \<in> set (the (getNoteFromBody (Some ''Notes: a\<newline>b\<newline>c'')))"
  by code_simp

text \<open>
  Claim C5, as the code has it. The note of a body is absent when the body is empty or no
  paragraph starts with \<^verbatim>\<open>Notes: \<close>. Otherwise it is the cleaned text of the first such
  paragraph, except that the reserved note \<^verbatim>\<open>No notes\<close> is returned when the cleaned text
  is one of \<^verbatim>\<open>no notes\<close>, \<^verbatim>\<open>no_notes\<close>, \<^verbatim>\<open>no-notes\<close> or \<^verbatim>\<open>none\<close>, with an optional full stop
  at the end, where the first letter of each word may be a capital and every other letter
  is in lower case (the 28 spellings of \<open>spellings_listed\<close>).
\<close>

theorem getNoteFromBody_spellings:
  "getNoteFromBody b =
     (case b of
        None \<Rightarrow> None
      | Some text \<Rightarrow>
          if text = [] then None
          else (case note_paragraph text of
                  None \<Rightarrow> None
                | Some p \<Rightarrow>
                    if clean_note p \<in> set (no_notes_spellings @ none_spellings)
                    then Some NO_NOTES else Some (clean_note p)))"
  using re_none_iff re_no_notes_iff
  by (auto simp: getNoteFromBody_def Let_def none_spellings_def no_notes_spellings_def
           split: option.splits)

text \<open>
  Claim C5 as stated fails: the match is not case-insensitive. The note \<^verbatim>\<open>NO NOTES\<close> equals
  \<^verbatim>\<open>no notes\<close> up to case, and it is returned as it is, not as the reserved note.
\<close>

theorem upper_case_no_notes_kept:
  "toLowerCase ''NO NOTES'' = ''no notes''
   \<and> getNoteFromBody (Some ''Notes: NO NOTES'') = Some ''NO NOTES''
   \<and> getNoteFromBody (Some ''Notes: NO NOTES'') \<noteq> Some NO_NOTES"
  by code_simp

subsection \<open>Numbers of pull requests\<close>

lemma follow_repo_parts:
  "a @ ''/'' @ b \<in> set FOLLOW_REPOS \<Longrightarrow> a \<noteq> [] \<and> b \<noteq> []"
  by (auto simp: FOLLOW_REPOS_def append_eq_Cons_conv Cons_eq_append_conv)

text \<open>
  Claim C10, as the code has it. When the manual-backport rule fires (the message holds
  \<^verbatim>\<open>backport\<close> in any case and a token \<^verbatim>\<open>owner/repo#number\<close> that names a followed
  repository), the rule returns and the number of the recorded pull request is the matched
  digits as a string, which is strictly equal to no number. The rules for the subject
  suffix, for merge commits and for \<^verbatim>\<open>Backport of #N\<close> record the number that \<open>parseInt\<close>
  gives.
\<close>

theorem manual_backport_number_is_text:
  assumes "includes_str (toLowerCase commitMessage) ''backport''"
    and "exec re_backport_ref commitMessage = Some m"
    and "grp m 1 @ ''/'' @ grp m 2 \<in> set FOLLOW_REPOS"
  shows "(\<exists>c'. rule_backport_ref commitMessage c = Inr c'
               \<and> pr_number_of c' = Some (Str (grp m 3)))
       \<and> (\<forall>n. \<not> strict_eq (Str (grp m 3)) (Num n))
       \<and> (\<forall>m2 subj' c2 c'. exec re_pr_suffix subj = Some m2
             \<and> rule_pr_suffix ownr rp (subj, c2) = Inr (subj', c')
             \<longrightarrow> pr_number_of c' = Some (Num (parseInt (grp m2 2))))
       \<and> (\<forall>m2 c2 c'. exec re_merge subj = Some m2 \<and> rule_merge ownr rp subj c2 = Inr c'
             \<longrightarrow> pr_number_of c' = Some (Num (parseInt (grp m2 1))))
       \<and> (\<forall>m2 c2 c'. exec re_backport_of msg = Some m2
             \<and> rule_backport_of msg ownr rp c2 = Inr c'
             \<longrightarrow> pr_number_of c' = Some (Num (parseInt (grp m2 1))))"
proof -
  from backport_ref_groups [OF assms(2)] follow_repo_parts [OF assms(3)]
  have "\<exists>c'. rule_backport_ref commitMessage c = Inr c'
             \<and> pr_number_of c' = Some (Str (grp m 3))"
    using assms
    by (simp add: rule_backport_ref_def setPullRequest_def truthy_num_def pr_number_of_def
                  Let_def)
  moreover have "\<forall>n. \<not> strict_eq (Str (grp m 3)) (Num n)"
    by (simp add: strict_eq_def)
  moreover have "\<forall>m2 subj' c2 c'. exec re_pr_suffix subj = Some m2
             \<and> rule_pr_suffix ownr rp (subj, c2) = Inr (subj', c')
             \<longrightarrow> pr_number_of c' = Some (Num (parseInt (grp m2 2)))"
    by (auto simp: rule_pr_suffix_def bind_def setPullRequest_def pr_number_of_def Let_def
             split: if_splits)
  moreover have "\<forall>m2 c2 c'. exec re_merge subj = Some m2
             \<and> rule_merge ownr rp subj c2 = Inr c'
             \<longrightarrow> pr_number_of c' = Some (Num (parseInt (grp m2 1)))"
    by (auto simp: rule_merge_def bind_def setPullRequest_def pr_number_of_def Let_def
                   set_branch_def
             split: if_splits)
  moreover have "\<forall>m2 c2 c'. exec re_backport_of msg = Some m2
             \<and> rule_backport_of msg ownr rp c2 = Inr c'
             \<longrightarrow> pr_number_of c' = Some (Num (parseInt (grp m2 1)))"
    by (auto simp: rule_backport_of_def setPullRequest_def pr_number_of_def Let_def
             split: if_splits)
  ultimately show ?thesis by blast
qed

text \<open>At the message \<^verbatim>\<open>backport electron/node#34\<close> the recorded number is the string
  \<^verbatim>\<open>34\<close>; at the subject \<^verbatim>\<open>x (#34)\<close> it is the number 34; the two are not strictly equal.\<close>

theorem manual_backport_number_is_text_witness:
  "pr_number_of (projr (rule_backport_ref ''backport electron/node#34'' empty_commit))
     = Some (Str ''34'')
   \<and> pr_number_of (snd (projr (rule_pr_suffix ''electron'' ''node'' (''x (#34)'', empty_commit))))
     = Some (Num 34)
   \<and> \<not> strict_eq (Str ''34'') (Num 34)"
proof -
  have i: "includes_str (toLowerCase ''backport electron/node#34'') ''backport''"
    by code_simp
  have e: "exec re_backport_ref ''backport electron/node#34''
           = Some \<lparr>before = ''backport '', matched = ''electron/node#34'', after = [],
                   groups = [(3, ''34''), (2, ''node''), (1, ''electron'')]\<rparr>"
    by code_simp
  have f: "grp \<lparr>before = ''backport '', matched = ''electron/node#34'', after = [],
                groups = [(3, ''34''), (2, ''node''), (1, ''electron'')]\<rparr> 1 @ ''/'' @
           grp \<lparr>before = ''backport '', matched = ''electron/node#34'', after = [],
                groups = [(3, ''34''), (2, ''node''), (1, ''electron'')]\<rparr> 2
           \<in> set FOLLOW_REPOS"
    by code_simp
  have g: "grp \<lparr>before = ''backport '', matched = ''electron/node#34'', after = [],
                groups = [(3, ''34''), (2, ''node''), (1, ''electron'')]\<rparr> 3 = ''34''"
    by code_simp
  have s: "pr_number_of (snd (projr (rule_pr_suffix ''electron'' ''node''
             (''x (#34)'', empty_commit)))) = Some (Num 34)"
    by code_simp
  from manual_backport_number_is_text [OF i e f, of empty_commit, THEN conjunct1] g
  obtain c' where "rule_backport_ref ''backport electron/node#34'' empty_commit = Inr c'"
    and "pr_number_of c' = Some (Str ''34'')"
    by auto
  then show ?thesis
    using s by (simp add: strict_eq_def)
qed

text \<open>
  Claim C10 as stated fails in one point: the manual-backport rule is not the only rule
  that records a pull request without \<open>parseInt\<close>. The rule for a link to the pull request
  stores the matched digits as a string too.
\<close>

theorem backport_url_number_is_text:
  "map_sum id pr_number_of
     (rule_backport_url ''backport https://github.com/electron/node/pull/34'' empty_commit)
   = Inr (Some (Str ''34''))"
  by code_simp

subsection \<open>The original subject and the original pull request\<close>

lemma setPullRequest_originals:
  assumes "setPullRequest c ownr rp n = Inr c'"
  shows "originalSubject c' = originalSubject c"
    and "originalPr c = Some p \<Longrightarrow> originalPr c' = Some p"
  using assms by (auto simp: setPullRequest_def Let_def split: if_splits)

lemma rule_pr_suffix_originals:
  assumes "rule_pr_suffix ownr rp (subj, c) = Inr (subj', c')"
  shows "originalSubject c' = originalSubject c"
    and "originalPr c = Some p \<Longrightarrow> originalPr c' = Some p"
  using assms
  by (auto simp: rule_pr_suffix_def bind_def split: option.splits sum.splits
           dest: setPullRequest_originals)

lemma rule_semantic_originals:
  assumes "rule_semantic (subj, c) = (subj', c')"
  shows "originalSubject c' = originalSubject c" and "originalPr c' = originalPr c"
  using assms by (auto simp: rule_semantic_def split: option.splits)

lemma rule_merge_originals:
  assumes "rule_merge ownr rp subj c = Inr c'"
  shows "originalSubject c' = originalSubject c"
    and "originalPr c = Some p \<Longrightarrow> originalPr c' = Some p"
  using assms
  by (auto simp: rule_merge_def bind_def set_branch_def Let_def
           split: option.splits sum.splits dest: setPullRequest_originals)

lemma rule_backport_of_originals:
  assumes "rule_backport_of m ownr rp c = Inr c'"
  shows "originalSubject c' = originalSubject c"
    and "originalPr c = Some p \<Longrightarrow> originalPr c' = Some p"
  using assms
  by (auto simp: rule_backport_of_def split: option.splits dest: setPullRequest_originals)

lemma rule_backport_ref_originals:
  assumes "rule_backport_ref m c = Inr c'"
  shows "originalSubject c' = originalSubject c"
    and "originalPr c = Some p \<Longrightarrow> originalPr c' = Some p"
  using assms
  by (auto simp: rule_backport_ref_def split: option.splits if_splits
           dest: setPullRequest_originals)

lemma rule_backport_url_originals:
  assumes "rule_backport_url m c = Inr c'"
  shows "originalSubject c' = originalSubject c"
    and "originalPr c = Some p \<Longrightarrow> originalPr c' = Some p"
  using assms
  by (auto simp: rule_backport_url_def split: option.splits if_splits
           dest: setPullRequest_originals)

lemma rule_legacy_originals:
  "originalSubject (rule_legacy m c) = originalSubject c"
  "originalPr (rule_legacy m c) = originalPr c"
  by (auto simp: rule_legacy_def Let_def split: option.splits)

lemma rules_issue_originals:
  "originalSubject (rules_issue m subj b c) = originalSubject c"
  "originalPr c = Some p \<Longrightarrow> \<not> md_fixes_names m (pr_number p) \<Longrightarrow>
     originalPr (rules_issue m subj b c) = Some p"
  by (auto simp: rules_issue_def rule_revert_def rule_breaking_def rule_md_fixes_def
                 rule_closes_def default_fix_def md_fixes_names_def has_number_def Let_def
           split: option.splits)

lemma init_originals:
  "originalSubject c = Some s \<Longrightarrow> s \<noteq> [] \<Longrightarrow>
     originalSubject (init_body b (init_subject subj c)) = Some s"
  "originalPr (init_body b (init_subject subj c)) = originalPr c"
  by (auto simp: init_body_def init_subject_def truthy_def Let_def)

lemma parse_steps:
  assumes "parseCommitMessage m ownr rp c = Inr c'"
  obtains subj0 b subj1 c1 subj c2 c3 c4 c5 c6 where
    "split_message m = (subj0, b)"
    "rule_pr_suffix ownr rp (subj0, init_body b (init_subject subj0 c)) = Inr (subj1, c1)"
    "rule_semantic (subj1, c1) = (subj, c2)"
    "rule_merge ownr rp subj c2 = Inr c3"
    "rule_backport_of m ownr rp c3 = Inr c4"
    "rule_backport_ref m (rules_issue m subj b c4) = Inr c5"
    "rule_backport_url m c5 = Inr c6"
    "c' = (rule_legacy m c6)\<lparr>subject := Some (trim subj)\<rparr>"
  using assms
  by (auto simp: parseCommitMessage_def rules_pull_def bind_def split: sum.splits prod.splits)

lemma parse_originalSubject:
  assumes "parseCommitMessage m ownr rp c = Inr c'"
    and "originalSubject c = Some s" and "s \<noteq> []"
  shows "originalSubject c' = Some s"
  using assms(1)
proof (rule parse_steps)
  fix subj0 b subj1 c1 subj c2 c3 c4 c5 c6
  assume "rule_pr_suffix ownr rp (subj0, init_body b (init_subject subj0 c)) = Inr (subj1, c1)"
    "rule_semantic (subj1, c1) = (subj, c2)"
    "rule_merge ownr rp subj c2 = Inr c3"
    "rule_backport_of m ownr rp c3 = Inr c4"
    "rule_backport_ref m (rules_issue m subj b c4) = Inr c5"
    "rule_backport_url m c5 = Inr c6"
    "c' = (rule_legacy m c6)\<lparr>subject := Some (trim subj)\<rparr>"
  then show ?thesis
    using init_originals(1) [OF assms(2,3)]
    by (simp add: rule_pr_suffix_originals(1) rule_semantic_originals(1)
          rule_merge_originals(1) rule_backport_of_originals(1) rules_issue_originals(1)
          rule_backport_ref_originals(1) rule_backport_url_originals(1)
          rule_legacy_originals(1))
qed

lemma parse_originalPr:
  assumes "parseCommitMessage m ownr rp c = Inr c'"
    and "originalPr c = Some p" and "\<not> md_fixes_names m (pr_number p)"
  shows "originalPr c' = Some p"
  using assms(1)
proof (rule parse_steps)
  fix subj0 b subj1 c1 subj c2 c3 c4 c5 c6
  assume s: "rule_pr_suffix ownr rp (subj0, init_body b (init_subject subj0 c)) = Inr (subj1, c1)"
    "rule_semantic (subj1, c1) = (subj, c2)"
    "rule_merge ownr rp subj c2 = Inr c3"
    "rule_backport_of m ownr rp c3 = Inr c4"
    "rule_backport_ref m (rules_issue m subj b c4) = Inr c5"
    "rule_backport_url m c5 = Inr c6"
    "c' = (rule_legacy m c6)\<lparr>subject := Some (trim subj)\<rparr>"
  have "originalPr c1 = Some p"
    using rule_pr_suffix_originals(2) [OF s(1)] assms(2) by (simp add: init_originals(2))
  then have "originalPr c2 = Some p"
    using rule_semantic_originals(2) [OF s(2)] by simp
  then have "originalPr c3 = Some p"
    using rule_merge_originals(2) [OF s(3)] by simp
  then have "originalPr c4 = Some p"
    using rule_backport_of_originals(2) [OF s(4)] by simp
  then have "originalPr (rules_issue m subj b c4) = Some p"
    using assms(3) by (rule rules_issue_originals(2))
  then have "originalPr c5 = Some p"
    using rule_backport_ref_originals(2) [OF s(5)] by simp
  then have "originalPr c6 = Some p"
    using rule_backport_url_originals(2) [OF s(6)] by simp
  then show ?thesis
    using s(7) by (simp add: rule_legacy_originals(2))
qed

text \<open>
  Claim C1, as the code has it. Over any sequence of passes that returns, an original
  subject that is a non-empty string is never changed, and an original pull request is
  never changed as long as no message of the sequence has a markdown link
  \<^verbatim>\<open>Fixes [#N](https://github.com/o/r/issues/N)\<close> whose \<open>N\<close> is the number of that pull
  request. (Such a message makes the markdown rule clear \<^verbatim>\<open>originalPr\<close>, and a later
  \<open>setPullRequest\<close> assigns it anew.)
\<close>

theorem originals_kept:
  assumes "parse_passes ps c = Inr c'"
  shows "(\<forall>s. originalSubject c = Some s \<and> s \<noteq> [] \<longrightarrow> originalSubject c' = Some s)
       \<and> (\<forall>p. originalPr c = Some p
               \<and> (\<forall>(m, ownr, rp) \<in> set ps. \<not> md_fixes_names m (pr_number p))
             \<longrightarrow> originalPr c' = Some p)"
  using assms
proof (induction ps arbitrary: c)
  case Nil
  then show ?case by simp
next
  case (Cons a ps)
  obtain m ownr rp where a: "a = (m, ownr, rp)" by (cases a)
  from Cons.prems a obtain c1 where
    1: "parseCommitMessage m ownr rp c = Inr c1" and 2: "parse_passes ps c1 = Inr c'"
    by (auto simp: bind_def split: sum.splits)
  from Cons.IH [OF 2] parse_originalSubject [OF 1] parse_originalPr [OF 1] a
  show ?case by auto
qed

text \<open>After the parse of \<^verbatim>\<open>x (#1)\<close>, a second pass over \<^verbatim>\<open>y (#2)\<close> moves \<^verbatim>\<open>pr\<close> to the pull
  request 2 and keeps the original subject and the original pull request.\<close>

theorem originals_kept_witness:
  "originalSubject first_pass = Some ''x (#1)''
   \<and> originalPr first_pass = Some pull_one
   \<and> \<not> isl (parse_passes [(''y (#2)'', ''a'', ''b'')] first_pass)
   \<and> originalSubject (projr (parse_passes [(''y (#2)'', ''a'', ''b'')] first_pass))
       = Some ''x (#1)''
   \<and> originalPr (projr (parse_passes [(''y (#2)'', ''a'', ''b'')] first_pass)) = Some pull_one
   \<and> pr_number_of (projr (parse_passes [(''y (#2)'', ''a'', ''b'')] first_pass))
       = Some (Num 2)"
proof -
  have s: "originalSubject first_pass = Some ''x (#1)''" "''x (#1)'' \<noteq> []"
    by code_simp+
  have p: "originalPr first_pass = Some pull_one"
    by code_simp
  have n: "\<not> md_fixes_names ''y (#2)'' (pr_number pull_one)"
    by code_simp
  have r: "\<not> isl (parse_passes [(''y (#2)'', ''a'', ''b'')] first_pass)"
    by code_simp
  have q: "pr_number_of (projr (parse_passes [(''y (#2)'', ''a'', ''b'')] first_pass))
           = Some (Num 2)"
    by code_simp
  from r obtain c' where c': "parse_passes [(''y (#2)'', ''a'', ''b'')] first_pass = Inr c'"
    by (cases "parse_passes [(''y (#2)'', ''a'', ''b'')] first_pass") auto
  from originals_kept [OF c'] s p n
  have "originalSubject c' = Some ''x (#1)''" "originalPr c' = Some pull_one"
    by auto
  with s p r q c' show ?thesis by simp
qed

text \<open>
  Claim C1 as stated fails. The parse of \<^verbatim>\<open>x (#1)\<close> assigns the original pull request; a
  second pass over \<^verbatim>\<open>Fixes [#1](https://github.com/a/b/issues/1)\<close> clears it.
\<close>

theorem originalPr_cleared:
  "originalPr (projr (parse_passes [(''x (#1)'', ''a'', ''b'')] empty_commit)) = Some pull_one
   \<and> map_sum id originalPr
       (parse_passes [(''x (#1)'', ''a'', ''b''),
                      (''Fixes [#1](https://github.com/a/b/issues/1)'', ''a'', ''b'')]
          empty_commit) = Inr None"
  by code_simp

subsection \<open>Parsing a message twice\<close>

lemma J_same [simp]: "J x x z" "J z y z"
  by (simp_all add: J_def)

lemma future_back: "keeps a a' \<Longrightarrow> future c1 a' \<Longrightarrow> future c1 a"
  by (auto simp: keeps_def future_def)

lemma setPullRequest_eq:
  "setPullRequest c ownr rp n =
     (if ownr = [] \<or> rp = [] \<or> \<not> truthy_num n then Inl (BadPullRequest ownr rp n)
      else Inr (c\<lparr>pr := Some \<lparr>pr_owner = ownr, pr_repo = rp, pr_number = n, pr_branch = None\<rparr>,
                 originalPr := (case originalPr c of Some x \<Rightarrow> Some x | None \<Rightarrow>
                    (case pr c of Some y \<Rightarrow> Some y
                     | None \<Rightarrow> Some \<lparr>pr_owner = ownr, pr_repo = rp, pr_number = n, pr_branch = None\<rparr>))\<rparr>))"
  by (simp add: setPullRequest_def Let_def split: option.splits)

lemma setPullRequest_keeps:
  "setPullRequest a ownr rp n = Inr a' \<Longrightarrow> keeps a a' \<and> originalPr a' \<noteq> None"
  by (auto simp: setPullRequest_eq keeps_def split: if_splits option.splits)

lemma setPullRequest_pair:
  assumes "setPullRequest a ownr rp n = Inr a'" and "agree c1 a t"
    and "originalPr c1 \<noteq> None"
  shows "\<exists>t'. setPullRequest t ownr rp n = Inr t' \<and> agree c1 a' t'"
proof -
  from assms(1) have ok: "\<not> (ownr = [] \<or> rp = [] \<or> \<not> truthy_num n)"
    and a': "a' = a\<lparr>pr := Some \<lparr>pr_owner = ownr, pr_repo = rp, pr_number = n, pr_branch = None\<rparr>,
                 originalPr := (case originalPr a of Some x \<Rightarrow> Some x | None \<Rightarrow>
                    (case pr a of Some y \<Rightarrow> Some y
                     | None \<Rightarrow> Some \<lparr>pr_owner = ownr, pr_repo = rp, pr_number = n, pr_branch = None\<rparr>))\<rparr>"
    by (simp_all add: setPullRequest_eq split: if_splits)
  from assms(2,3) have o: "originalPr t \<noteq> None" "originalPr t = originalPr c1"
    by (simp_all add: agree_def)
  with ok assms(2) show ?thesis
    unfolding setPullRequest_eq [of t] a' agree_def by (auto split: option.splits)
qed

lemma rule_pr_suffix_keeps:
  "rule_pr_suffix ownr rp (s, a) = Inr (s', a') \<Longrightarrow> keeps a a'"
  by (auto simp: rule_pr_suffix_def bind_def keeps_def split: option.splits sum.splits
           dest!: setPullRequest_keeps)

lemma rule_pr_suffix_pair:
  assumes "rule_pr_suffix ownr rp (s, a) = Inr (s', a')" and "agree c1 a t" and "future c1 a'"
  shows "\<exists>t'. rule_pr_suffix ownr rp (s, t) = Inr (s', t') \<and> agree c1 a' t'"
proof (cases "exec re_pr_suffix s")
  case None
  with assms show ?thesis by (simp add: rule_pr_suffix_def)
next
  case (Some m)
  with assms(1) have 1: "setPullRequest a ownr rp (Num (parseInt (grp m 2))) = Inr a'"
    and s': "s' = grp m 1"
    by (auto simp: rule_pr_suffix_def bind_def split: sum.splits)
  from setPullRequest_keeps [OF 1] assms(3) have "originalPr c1 \<noteq> None"
    by (auto simp: future_def)
  from setPullRequest_pair [OF 1 assms(2) this] Some s' show ?thesis
    by (auto simp: rule_pr_suffix_def bind_def)
qed

lemma in_star_class:
  assumes "st \<in> set (rmatch (Star (NCls k)) st0)"
  shows "snd (snd st) = snd (snd st0)"
proof -
  from assms have "st \<in> set (star (step_char (\<lambda>x. x \<notin> set k)) (rest_len st0) st0)"
    by simp
  from in_star [OF this] in_step_char show ?thesis
    by blast
qed

lemma in_rmatch_Cls:
  "st \<in> set (rmatch (Cls k) st0) \<Longrightarrow> snd (snd st) = snd (snd st0)"
  by (auto dest: in_step_char)

lemma in_rmatch_Grp:
  "st \<in> set (rmatch (Grp i r) st0) \<Longrightarrow>
     \<exists>st1 g. st1 \<in> set (rmatch r st0) \<and> snd (snd st) = (i, g) # snd (snd st1)"
  by (fastforce simp: set_group_def split: prod.splits)

lemma in_rmatch_simple:
  "st \<in> set (rmatch Bol st0) \<Longrightarrow> st = st0"
  "st \<in> set (rmatch Eol st0) \<Longrightarrow> st = st0"
  "st \<in> set (rmatch Eps st0) \<Longrightarrow> st = st0"
  by (auto split: if_splits)

lemma semantic_group:
  assumes "exec re_semantic s = Some m"
  shows "grp m 1 \<noteq> []"
proof -
  from exec_groups [OF assms] obtain p s' st where
    st: "st \<in> set (rmatch re_semantic (p, s', []))" and g: "groups m = snd (snd st)"
    by blast
  from st obtain s1 s2 s3 s4 s5 s6 where
    1: "s1 \<in> set (rmatch Bol (p, s', []))"
    and 2: "s2 \<in> set (rmatch (Grp 1 (plus (Cls word_chars))) s1)"
    and 3: "s3 \<in> set (rmatch (Lit CHR '':'') s2)"
    and 4: "s4 \<in> set (rmatch (Cls ws_chars) s3)"
    and 5: "s5 \<in> set (rmatch (Grp 2 (Star (NCls [LF, CR]))) s4)"
    and 6: "s6 \<in> set (rmatch Eol s5)"
    and 7: "st \<in> set (rmatch Eps s6)"
    unfolding re_semantic_def seqs_Cons in_rmatch_Seq rx_w_def rx_s_def rx_dot_def
    by blast
  from in_rmatch_simple(1) [OF 1] in_group_plus_class [OF 2] obtain g1 where
    "g1 \<noteq> []" "snd (snd s2) = [(1, g1)]"
    by auto
  moreover from in_rmatch_Grp [OF 5] obtain s4' g2 where
    "s4' \<in> set (rmatch (Star (NCls [LF, CR])) s4)" "snd (snd s5) = (2, g2) # snd (snd s4')"
    by blast
  ultimately have "snd (snd st) = [(2, g2), (1, g1)]"
    using in_rmatch_Lit [OF 3] in_rmatch_Cls [OF 4] in_star_class [of s4' "[LF, CR]" s4]
      in_rmatch_simple(2) [OF 6] in_rmatch_simple(3) [OF 7]
    by simp
  with g \<open>g1 \<noteq> []\<close> show ?thesis by (simp add: grp_def)
qed

lemma rule_semantic_keeps:
  "rule_semantic (s, a) = (s', a') \<Longrightarrow> keeps a a'"
  by (auto simp: rule_semantic_def keeps_def truthy_def toLowerCase_def split: option.splits
           dest: semantic_group)

lemma rule_semantic_pair:
  assumes "rule_semantic (s, a) = (s', a')" and "agree c1 a t"
  shows "\<exists>t'. rule_semantic (s, t) = (s', t') \<and> agree c1 a' t'"
  using assms by (auto simp: rule_semantic_def agree_def split: option.splits)

lemma rule_merge_keeps:
  "rule_merge ownr rp s a = Inr a' \<Longrightarrow> keeps a a'"
  by (auto simp: rule_merge_def bind_def keeps_def set_branch_def setPullRequest_eq Let_def
           split: option.splits sum.splits if_splits)

lemma rule_merge_pair:
  assumes "rule_merge ownr rp s a = Inr a'" and "agree c1 a t" and "future c1 a'"
  shows "\<exists>t'. rule_merge ownr rp s t = Inr t' \<and> agree c1 a' t'"
proof (cases "exec re_merge s")
  case None
  with assms show ?thesis by (simp add: rule_merge_def)
next
  case (Some m)
  with assms(1) obtain a2 where 1: "setPullRequest a ownr rp (Num (parseInt (grp m 1))) = Inr a2"
    and a': "a' = set_branch (originalPr a = None \<and> pr a = None) (trim (grp m 2)) a2"
    by (auto simp: rule_merge_def bind_def split: sum.splits)
  from 1 have "pr a2 \<noteq> None" "originalPr a2 \<noteq> None"
    by (auto simp: setPullRequest_eq split: if_splits option.splits)
  with a' have "originalPr a' \<noteq> None"
    by (auto simp: set_branch_def Let_def)
  with assms(3) have o: "originalPr c1 \<noteq> None"
    by (auto simp: future_def)
  from setPullRequest_pair [OF 1 assms(2) o] obtain t2 where
    2: "setPullRequest t ownr rp (Num (parseInt (grp m 1))) = Inr t2" and ag: "agree c1 a2 t2"
    by blast
  from o assms(2) have "originalPr t \<noteq> None" by (simp add: agree_def)
  then have "rule_merge ownr rp s t = Inr (set_branch False (trim (grp m 2)) t2)"
    using Some 2 by (auto simp: rule_merge_def bind_def)
  moreover have "pr a2 = pr t2"
    using 1 2 by (auto simp: setPullRequest_eq split: if_splits)
  then have "agree c1 a' (set_branch False (trim (grp m 2)) t2)"
    using ag unfolding a' agree_def by (simp add: set_branch_def Let_def)
  ultimately show ?thesis by blast
qed

lemma rule_backport_of_keeps:
  "rule_backport_of m ownr rp a = Inr a' \<Longrightarrow> keeps a a'"
  by (auto simp: rule_backport_of_def keeps_def split: option.splits dest!: setPullRequest_keeps)

lemma put_pair:
  assumes "setPullRequest a ownr rp n = Inr a'" and "agree c1 a t" and "future c1 a'"
  shows "\<exists>t'. setPullRequest t ownr rp n = Inr t' \<and> agree c1 a' t'"
proof -
  from setPullRequest_keeps [OF assms(1)] assms(3) have "originalPr c1 \<noteq> None"
    by (auto simp: future_def)
  from setPullRequest_pair [OF assms(1,2) this] show ?thesis .
qed

lemma rule_backport_of_pair:
  assumes "rule_backport_of m ownr rp a = Inr a'" and "agree c1 a t" and "future c1 a'"
  shows "\<exists>t'. rule_backport_of m ownr rp t = Inr t' \<and> agree c1 a' t'"
  using assms put_pair [of a ownr rp _ a' c1 t]
  by (auto simp: rule_backport_of_def split: option.splits)

lemma rule_backport_ref_keeps:
  "rule_backport_ref m a = Inr a' \<Longrightarrow> keeps a a'"
  by (auto simp: rule_backport_ref_def keeps_def split: option.splits if_splits
           dest!: setPullRequest_keeps)

lemma rule_backport_ref_pair:
  assumes "rule_backport_ref m a = Inr a'" and "agree c1 a t" and "future c1 a'"
  shows "\<exists>t'. rule_backport_ref m t = Inr t' \<and> agree c1 a' t'"
  using assms put_pair [of a _ _ _ a' c1 t]
  by (auto simp: rule_backport_ref_def split: option.splits if_splits)

lemma rule_backport_url_keeps:
  "rule_backport_url m a = Inr a' \<Longrightarrow> keeps a a'"
  by (auto simp: rule_backport_url_def keeps_def split: option.splits if_splits
           dest!: setPullRequest_keeps)

lemma rule_backport_url_pair:
  assumes "rule_backport_url m a = Inr a'" and "agree c1 a t" and "future c1 a'"
  shows "\<exists>t'. rule_backport_url m t = Inr t' \<and> agree c1 a' t'"
  using assms put_pair [of a _ _ _ a' c1 t]
  by (auto simp: rule_backport_url_def split: option.splits if_splits)

lemma rule_md_fixes_inert:
  "exec re_md_fixes m = None \<Longrightarrow> rule_md_fixes m c = c"
  by (simp add: rule_md_fixes_def)

lemma rule_closes_pulls:
  "pr (rule_closes s c) = pr c" "originalPr (rule_closes s c) = originalPr c"
  by (auto simp: rule_closes_def default_fix_def split: option.splits)

lemma rule_closes_truthy:
  "truthy (type c) \<Longrightarrow> truthy (type (rule_closes s c))"
  by (auto simp: rule_closes_def default_fix_def split: option.splits)

lemma rule_md_fixes_truthy:
  "truthy (type c) \<Longrightarrow> truthy (type (rule_md_fixes m c))"
  by (auto simp: rule_md_fixes_def default_fix_def Let_def split: option.splits)

lemma rule_md_fixes_idle:
  assumes "exec re_md_fixes m = Some x" and "\<not> truthy_issue (issueNumber a)"
    and "pr (rule_md_fixes m a) = pr a" and "originalPr (rule_md_fixes m a) = originalPr a"
  shows "\<not> has_number (pr a) (parseInt (grp x 1))"
    and "\<not> has_number (originalPr a) (parseInt (grp x 1))"
    and "rule_md_fixes m a = default_fix (a\<lparr>issueNumber := Some (parseInt (grp x 1))\<rparr>)"
  using assms
  by (auto simp: rule_md_fixes_def Let_def default_fix_def has_number_def
           split: if_splits option.splits)

lemma rule_closes_pair:
  assumes "agree c1 a t" and "truthy (type (rule_closes s a)) \<longrightarrow> truthy (type c1)"
  shows "agree c1 (rule_closes s a) (rule_closes s t)"
proof (cases "exec re_closes s")
  case None
  with assms(1) show ?thesis by (simp add: rule_closes_def)
next
  case (Some x)
  have "truthy (type (rule_closes s a))"
    using Some by (simp add: rule_closes_def default_fix_def truthy_def)
  with assms(2) have "truthy (type c1)" by simp
  with assms(1) Some show ?thesis
    unfolding agree_def rule_closes_def default_fix_def
    by (auto simp: J_def [of "type _"])
qed

lemma rule_md_fixes_pair:
  assumes ag: "agree c1 a t"
    and lv: "truthy (type c1) \<longrightarrow> truthy (type t)"
    and fu: "truthy (type (rule_md_fixes m a)) \<longrightarrow> truthy (type c1)"
    and idle: "pr (rule_md_fixes m a) = pr a" "originalPr (rule_md_fixes m a) = originalPr a"
    and i1: "issueNumber c1 = issueNumber (rule_md_fixes m a)"
    and nc: "\<And>x. exec re_md_fixes m = Some x \<Longrightarrow> \<not> truthy_issue (issueNumber a) \<Longrightarrow>
               \<not> has_number (pr c1) (parseInt (grp x 1))
               \<and> \<not> has_number (originalPr c1) (parseInt (grp x 1))"
  shows "agree c1 (rule_md_fixes m a) (rule_md_fixes m t)"
proof (cases "exec re_md_fixes m")
  case None
  with ag show ?thesis by (simp add: rule_md_fixes_def)
next
  case (Some x)
  let ?n = "parseInt (grp x 1)"
  from ag have it: "issueNumber t = issueNumber a \<or> issueNumber t = issueNumber c1"
    and ty: "type t = type a \<or> type t = type c1"
    and pt: "pr t = pr a \<or> pr t = pr c1"
    and ot: "originalPr t = originalPr c1"
    by (simp_all add: agree_def J_def)
  show ?thesis
  proof (cases "truthy_issue (issueNumber a)")
    case True
    then have a: "rule_md_fixes m a = a" by (simp add: rule_md_fixes_def)
    with i1 it True have "truthy_issue (issueNumber t)" by auto
    then have "rule_md_fixes m t = t" by (simp add: rule_md_fixes_def)
    with a ag show ?thesis by simp
  next
    case False
    note na = rule_md_fixes_idle [OF Some False idle]
    have "truthy (type (rule_md_fixes m a))"
      unfolding na(3) by (simp add: default_fix_def truthy_def)
    with fu lv have t1: "truthy (type c1)" and tt: "truthy (type t)" by simp_all
    from i1 have ic: "issueNumber c1 = Some ?n"
      unfolding na(3) by (simp add: default_fix_def)
    define ty' where "ty' = type (rule_md_fixes m a)"
    have tya: "ty' = type a \<or> \<not> truthy (type a)"
      unfolding ty'_def na(3) by (simp add: default_fix_def)
    have tj: "J (type t) ty' (type c1)"
      using ty tya tt by (auto simp: J_def)
    have rest: "rule_md_fixes m a = a\<lparr>issueNumber := Some ?n, type := ty'\<rparr>"
      unfolding ty'_def na(3) by (simp add: default_fix_def)
    show ?thesis
    proof (cases "truthy_issue (issueNumber t)")
      case True
      then have t: "rule_md_fixes m t = t" by (simp add: rule_md_fixes_def)
      from True False it ic have "issueNumber t = Some ?n" by auto
      with ag tj show ?thesis
        unfolding t rest agree_def by (simp add: J_def [of "issueNumber _"])
    next
      case f: False
      from nc [OF Some False] pt ot na(1) have "\<not> has_number (pr t) ?n" "\<not> has_number (originalPr t) ?n"
        by auto
      with f Some tt have t: "rule_md_fixes m t = t\<lparr>issueNumber := Some ?n\<rparr>"
        by (simp add: rule_md_fixes_def Let_def default_fix_def)
      from ag tj show ?thesis
        unfolding t rest agree_def by simp
    qed
  qed
qed

lemma rules_issue_keeps:
  assumes "originalPr (rule_md_fixes m (rule_closes s a)) = originalPr a"
  shows "keeps a (rules_issue m s b a)"
proof -
  have "truthy (type a) \<longrightarrow> truthy (type (rule_md_fixes m (rule_closes s a)))"
    by (simp add: rule_closes_truthy rule_md_fixes_truthy)
  then have "truthy (type a) \<longrightarrow> truthy (type (rules_issue m s b a))"
    by (simp add: rules_issue_def rule_revert_def rule_breaking_def truthy_def
             split: option.splits)
  moreover have "originalPr (rules_issue m s b a) = originalPr a"
    using assms by (simp add: rules_issue_def rule_revert_def rule_breaking_def split: option.splits)
  ultimately show ?thesis by (simp add: keeps_def)
qed

lemma rules_issue_pair:
  assumes ag: "agree c1 a t"
    and lv: "truthy (type c1) \<longrightarrow> truthy (type t)"
    and fu: "future c1 (rules_issue m s b a)"
    and idle: "pr (rule_md_fixes m (rule_closes s a)) = pr a"
              "originalPr (rule_md_fixes m (rule_closes s a)) = originalPr a"
    and i1: "issueNumber c1 = issueNumber (rules_issue m s b a)"
    and nc: "\<And>x. exec re_md_fixes m = Some x \<Longrightarrow>
               \<not> truthy_issue (issueNumber (rule_closes s a)) \<Longrightarrow>
               \<not> has_number (pr c1) (parseInt (grp x 1))
               \<and> \<not> has_number (originalPr c1) (parseInt (grp x 1))"
  shows "agree c1 (rules_issue m s b a) (rules_issue m s b t)"
proof -
  have up: "truthy (type (rule_md_fixes m (rule_closes s a))) \<longrightarrow> truthy (type c1)"
    using fu
    by (auto simp: future_def rules_issue_def rule_revert_def rule_breaking_def truthy_def
             split: option.splits if_splits)
  then have "truthy (type (rule_closes s a)) \<longrightarrow> truthy (type c1)"
    by (simp add: rule_md_fixes_truthy)
  with ag have closes: "agree c1 (rule_closes s a) (rule_closes s t)"
    by (rule rule_closes_pair)
  have "issueNumber c1 = issueNumber (rule_md_fixes m (rule_closes s a))"
    using i1 by (simp add: rules_issue_def rule_revert_def rule_breaking_def split: option.splits)
  with closes lv up idle nc
  have "agree c1 (rule_md_fixes m (rule_closes s a)) (rule_md_fixes m (rule_closes s t))"
    by (intro rule_md_fixes_pair) (simp_all add: rule_closes_pulls rule_closes_truthy)
  then have "agree c1 (rule_breaking m (rule_md_fixes m (rule_closes s a)))
                      (rule_breaking m (rule_md_fixes m (rule_closes s t)))"
    unfolding agree_def rule_breaking_def by simp
  then show ?thesis
    unfolding rules_issue_def agree_def rule_revert_def
    by (simp split: option.splits)
qed

lemma setPullRequest_issue:
  "setPullRequest c ownr rp n = Inr c' \<Longrightarrow> issueNumber c' = issueNumber c"
  by (auto simp: setPullRequest_eq split: if_splits)

lemma strict_eq_text: "\<not> strict_eq (Str s) (Num n)"
  by (simp add: strict_eq_def)

lemma rule_backport_ref_text:
  assumes "rule_backport_ref m a = Inr a'"
    and "\<not> has_number (pr a) n" and "\<not> has_number (originalPr a) n"
  shows "issueNumber a' = issueNumber a \<and> \<not> has_number (pr a') n \<and> \<not> has_number (originalPr a') n"
  using assms
  by (auto simp: rule_backport_ref_def setPullRequest_eq has_number_def strict_eq_text
           split: option.splits if_splits)

lemma rule_backport_url_text:
  assumes "rule_backport_url m a = Inr a'"
    and "\<not> has_number (pr a) n" and "\<not> has_number (originalPr a) n"
  shows "issueNumber a' = issueNumber a \<and> \<not> has_number (pr a') n \<and> \<not> has_number (originalPr a') n"
  using assms
  by (auto simp: rule_backport_url_def setPullRequest_eq has_number_def strict_eq_text
           split: option.splits if_splits)

lemma rules_pull_steps:
  assumes "split_message m = (subj0, b)"
    and "rule_pr_suffix ownr rp (subj0, init_body b (init_subject subj0 c)) = Inr (subj1, c1)"
    and "rule_semantic (subj1, c1) = (subj, c2)"
    and "rule_merge ownr rp subj c2 = Inr c3"
    and "rule_backport_of m ownr rp c3 = Inr c4"
  shows "rules_pull m ownr rp c = Inr (subj, b, c4)"
  using assms by (simp add: rules_pull_def bind_def)

lemma rule_legacy_truthy:
  "truthy (type a) \<Longrightarrow> truthy (type (rule_legacy m a))"
  by (auto simp: rule_legacy_def Let_def truthy_def knownTypes_def breakTypes_def docTypes_def
                 featTypes_def fixTypes_def otherTypes_def
           split: option.splits)

lemma rule_legacy_type_cong:
  "type t = type a \<Longrightarrow> type (rule_legacy m t) = type (rule_legacy m a)"
  by (auto simp: rule_legacy_def Let_def split: option.splits)

lemma rule_legacy_type_idem:
  "type t = type (rule_legacy m a) \<Longrightarrow> type (rule_legacy m t) = type (rule_legacy m a)"
  by (auto simp: rule_legacy_def Let_def truthy_def split: option.splits if_splits)

lemma rule_legacy_frame:
  "rule_legacy m c = c\<lparr>type := type (rule_legacy m c)\<rparr>"
  by (simp add: rule_legacy_def Let_def split: option.splits)

lemma init_pair:
  "agree c1 (init_body b (init_subject s empty_commit)) (init_body b (init_subject s c1))"
  by (simp add: agree_def init_body_def init_subject_def Let_def empty_commit_def truthy_def)

lemma last_pair:
  assumes "agree c1 a t" and "c1 = (rule_legacy m a)\<lparr>subject := Some s\<rparr>"
  shows "(rule_legacy m t)\<lparr>subject := Some s\<rparr> = c1"
proof -
  have ty: "type (rule_legacy m t) = type (rule_legacy m a)"
    using assms rule_legacy_type_cong [of t a m] rule_legacy_type_idem [of t m a]
    by (auto simp: agree_def J_def [of "type _"])
  have c1: "c1 = a\<lparr>type := type (rule_legacy m a), subject := Some s\<rparr>"
    using assms(2) rule_legacy_frame [of m a] by simp
  have "rule_legacy m t = t\<lparr>type := type (rule_legacy m a)\<rparr>"
    using rule_legacy_frame [of m t] ty by simp
  then have "(rule_legacy m t)\<lparr>subject := Some s\<rparr>
             = t\<lparr>type := type (rule_legacy m a), subject := Some s\<rparr>"
    by simp
  also have "\<dots> = c1"
    using assms(1) unfolding c1 agree_def J_def by (intro commit.equality) auto
  finally show ?thesis .
qed

text \<open>
  Claim C3, as the code has it. When the markdown rule clears nothing in the parse of a
  message from the empty record, and that parse returns a record \<open>c1\<close>, the parse of the same
  message from \<open>c1\<close> returns too, and returns \<open>c1\<close> itself.
\<close>

theorem parse_idempotent:
  assumes md: "md_clears_nothing m ownr rp"
    and p1: "parseCommitMessage m ownr rp empty_commit = Inr c1"
  shows "parseCommitMessage m ownr rp c1 = Inr c1"
  using p1
proof (rule parse_steps)
  fix subj0 b subj1 a1 subj a2 a3 a4 a5 a6
  assume sm: "split_message m = (subj0, b)"
    and s1: "rule_pr_suffix ownr rp (subj0, init_body b (init_subject subj0 empty_commit))
             = Inr (subj1, a1)"
    and s2: "rule_semantic (subj1, a1) = (subj, a2)"
    and s3: "rule_merge ownr rp subj a2 = Inr a3"
    and s4: "rule_backport_of m ownr rp a3 = Inr a4"
    and s5: "rule_backport_ref m (rules_issue m subj b a4) = Inr a5"
    and s6: "rule_backport_url m a5 = Inr a6"
    and c1: "c1 = (rule_legacy m a6)\<lparr>subject := Some (trim subj)\<rparr>"
  from md rules_pull_steps [OF sm s1 s2 s3 s4]
  have idle: "pr (rule_md_fixes m (rule_closes subj a4)) = pr a4"
    "originalPr (rule_md_fixes m (rule_closes subj a4)) = originalPr a4"
    by (simp_all add: md_clears_nothing_def)
  have f6: "future c1 a6"
    using rule_legacy_truthy [of a6 m]
    by (simp add: c1 future_def rule_legacy_originals(2))
  have f5: "future c1 a5"
    using rule_backport_url_keeps [OF s6] f6 by (rule future_back)
  have f4i: "future c1 (rules_issue m subj b a4)"
    using rule_backport_ref_keeps [OF s5] f5 by (rule future_back)
  have f4: "future c1 a4"
    using rules_issue_keeps [OF idle(2)] f4i by (rule future_back)
  have f3: "future c1 a3"
    using rule_backport_of_keeps [OF s4] f4 by (rule future_back)
  have f2: "future c1 a2"
    using rule_merge_keeps [OF s3] f3 by (rule future_back)
  have f1: "future c1 a1"
    using rule_semantic_keeps [OF s2] f2 by (rule future_back)
  from rule_pr_suffix_pair [OF s1 init_pair f1] obtain t1 where
    t1: "rule_pr_suffix ownr rp (subj0, init_body b (init_subject subj0 c1)) = Inr (subj1, t1)"
    and g1: "agree c1 a1 t1"
    by blast
  from rule_semantic_pair [OF s2 g1] obtain t2 where
    t2: "rule_semantic (subj1, t1) = (subj, t2)" and g2: "agree c1 a2 t2"
    by blast
  from rule_merge_pair [OF s3 g2 f3] obtain t3 where
    t3: "rule_merge ownr rp subj t2 = Inr t3" and g3: "agree c1 a3 t3"
    by blast
  from rule_backport_of_pair [OF s4 g3 f4] obtain t4 where
    t4: "rule_backport_of m ownr rp t3 = Inr t4" and g4: "agree c1 a4 t4"
    by blast
  have "truthy (type c1) \<longrightarrow> truthy (type (init_body b (init_subject subj0 c1)))"
    by (simp add: init_body_def init_subject_def Let_def)
  then have "truthy (type c1) \<longrightarrow> truthy (type t1)"
    using rule_pr_suffix_keeps [OF t1] by (simp add: keeps_def)
  then have "truthy (type c1) \<longrightarrow> truthy (type t2)"
    using rule_semantic_keeps [OF t2] by (simp add: keeps_def)
  then have "truthy (type c1) \<longrightarrow> truthy (type t3)"
    using rule_merge_keeps [OF t3] by (simp add: keeps_def)
  then have lv: "truthy (type c1) \<longrightarrow> truthy (type t4)"
    using rule_backport_of_keeps [OF t4] by (simp add: keeps_def)
  have pulls: "pr (rules_issue m subj b a4) = pr a4"
    "originalPr (rules_issue m subj b a4) = originalPr a4"
    using idle
    by (simp_all add: rules_issue_def rule_revert_def rule_breaking_def split: option.splits)
  have last: "issueNumber c1 = issueNumber a6" "pr c1 = pr a6" "originalPr c1 = originalPr a6"
    unfolding c1 by (simp_all add: rule_legacy_def Let_def split: option.splits)
  have nc: "\<not> has_number (pr c1) (parseInt (grp x 1))
            \<and> \<not> has_number (originalPr c1) (parseInt (grp x 1))"
    if x: "exec re_md_fixes m = Some x"
      and i: "\<not> truthy_issue (issueNumber (rule_closes subj a4))" for x
  proof -
    from idle have "pr (rule_md_fixes m (rule_closes subj a4)) = pr (rule_closes subj a4)"
      "originalPr (rule_md_fixes m (rule_closes subj a4)) = originalPr (rule_closes subj a4)"
      by (simp_all add: rule_closes_pulls)
    from rule_md_fixes_idle(1,2) [OF x i this]
    have "\<not> has_number (pr (rules_issue m subj b a4)) (parseInt (grp x 1))"
      "\<not> has_number (originalPr (rules_issue m subj b a4)) (parseInt (grp x 1))"
      by (simp_all add: pulls rule_closes_pulls)
    from rule_backport_ref_text [OF s5 this]
    have "\<not> has_number (pr a5) (parseInt (grp x 1))"
      "\<not> has_number (originalPr a5) (parseInt (grp x 1))"
      by simp_all
    from rule_backport_url_text [OF s6 this] show ?thesis
      by (simp add: last)
  qed
  have "issueNumber a5 = issueNumber (rules_issue m subj b a4)"
    using s5 by (auto simp: rule_backport_ref_def split: option.splits if_splits
                      dest: setPullRequest_issue)
  moreover have "issueNumber a6 = issueNumber a5"
    using s6 by (auto simp: rule_backport_url_def split: option.splits if_splits
                      dest: setPullRequest_issue)
  ultimately have i1: "issueNumber c1 = issueNumber (rules_issue m subj b a4)"
    by (simp add: last)
  have g4i: "agree c1 (rules_issue m subj b a4) (rules_issue m subj b t4)"
    using g4 lv f4i idle i1 nc by (rule rules_issue_pair)
  from rule_backport_ref_pair [OF s5 g4i f5] obtain t5 where
    t5: "rule_backport_ref m (rules_issue m subj b t4) = Inr t5" and g5: "agree c1 a5 t5"
    by blast
  from rule_backport_url_pair [OF s6 g5 f6] obtain t6 where
    t6: "rule_backport_url m t5 = Inr t6" and g6: "agree c1 a6 t6"
    by blast
  have "(rule_legacy m t6)\<lparr>subject := Some (trim subj)\<rparr> = c1"
    using g6 c1 by (rule last_pair)
  then show ?thesis
    by (simp add: parseCommitMessage_def rules_pull_def bind_def sm t1 t2 t3 t4 t5 t6)
qed

theorem parse_idempotent_witness:
  "md_clears_nothing other_example ''a'' ''b''
   \<and> exec re_md_fixes other_example \<noteq> None
   \<and> \<not> isl (parseCommitMessage other_example ''a'' ''b'' empty_commit)
   \<and> parseCommitMessage other_example ''a'' ''b''
       (projr (parseCommitMessage other_example ''a'' ''b'' empty_commit))
     = parseCommitMessage other_example ''a'' ''b'' empty_commit"
proof -
  have h: "md_clears_nothing other_example ''a'' ''b''"
    by code_simp
  have x: "exec re_md_fixes other_example \<noteq> None"
    by code_simp
  have r: "\<not> isl (parseCommitMessage other_example ''a'' ''b'' empty_commit)"
    by code_simp
  then obtain c1 where c1: "parseCommitMessage other_example ''a'' ''b'' empty_commit = Inr c1"
    by (cases "parseCommitMessage other_example ''a'' ''b'' empty_commit") auto
  from parse_idempotent [OF h c1] h x r c1 show ?thesis
    by simp
qed

text \<open>
  Claim C3 as stated fails. In the message \<^verbatim>\<open>x (#1)\<close> with the body
  \<^verbatim>\<open>Fixes [#1](https://github.com/a/b/issues/1)\<close> the markdown rule takes the pull request 1
  for an issue and clears it in the first parse. In the second parse the issue number is
  already set, the markdown rule is skipped, and the pull request stays.
\<close>

theorem parse_not_idempotent:
  "parseCommitMessage md_example ''a'' ''b'' empty_commit = Inr md_first
   \<and> parseCommitMessage md_example ''a'' ''b'' md_first = Inr md_second
   \<and> md_second \<noteq> md_first"
proof -
  have "parseCommitMessage md_example ''a'' ''b'' empty_commit = Inr md_first"
    by code_simp
  moreover have "parseCommitMessage md_example ''a'' ''b'' md_first = Inr md_second"
    by code_simp
  moreover have "md_second \<noteq> md_first"
    by code_simp
  ultimately show ?thesis by simp
qed

subsection \<open>The loop that follows pull requests\<close>

lemma cyc_rounds:
  "follow_round cyc pull_e1 cyc0 = Next pull_e2 cyc1"
  "follow_round cyc pull_e2 cyc1 = Next pull_e1 cyc2"
  "follow_round cyc pull_e1 cyc2 = Next pull_e2 cyc1"
  by code_simp+

lemma cyc_never:
  assumes "follow g p c = Some y"
  shows "\<not> (g = cyc \<and> (p, c) \<in> {(Some pull_e1, cyc0), (Some pull_e2, cyc1),
                                  (Some pull_e1, cyc2)})"
proof (rule follow.raw_induct
    [where P = "\<lambda>g p c y. \<not> (g = cyc \<and> (p, c) \<in> {(Some pull_e1, cyc0),
                  (Some pull_e2, cyc1), (Some pull_e1, cyc2)})", OF _ assms])
  fix follow' :: "service \<Rightarrow> pull option \<Rightarrow> commit \<Rightarrow> (error + commit) option"
    and g p c y
  assume IH: "\<And>g p c y. follow' g p c = Some y \<Longrightarrow>
      \<not> (g = cyc \<and> (p, c) \<in> {(Some pull_e1, cyc0), (Some pull_e2, cyc1),
                               (Some pull_e1, cyc2)})"
    and body: "(if p = None then Some (Inr c)
      else if is_next (follow_round g (the p) c)
           then follow' g (next_pull (follow_round g (the p) c))
                  (next_commit (follow_round g (the p) c) c)
           else Some (outcome (follow_round g (the p) c) c)) = Some y"
  show "\<not> (g = cyc \<and> (p, c) \<in> {(Some pull_e1, cyc0), (Some pull_e2, cyc1),
                                  (Some pull_e1, cyc2)})"
  proof
    assume a: "g = cyc \<and> (p, c) \<in> {(Some pull_e1, cyc0), (Some pull_e2, cyc1),
                                     (Some pull_e1, cyc2)}"
    then consider "p = Some pull_e1" "c = cyc0" | "p = Some pull_e2" "c = cyc1"
      | "p = Some pull_e1" "c = cyc2"
      by auto
    then show False
    proof cases
      case 1
      with a body have "follow' cyc (Some pull_e2) cyc1 = Some y"
        by (simp add: cyc_rounds is_next_def next_pull_def next_commit_def)
      from IH [OF this] show False by simp
    next
      case 2
      with a body have "follow' cyc (Some pull_e1) cyc2 = Some y"
        by (simp add: cyc_rounds is_next_def next_pull_def next_commit_def)
      from IH [OF this] show False by simp
    next
      case 3
      with a body have "follow' cyc (Some pull_e2) cyc1 = Some y"
        by (simp add: cyc_rounds is_next_def next_pull_def next_commit_def)
      from IH [OF this] show False by simp
    qed
  qed
qed

text \<open>A round that goes on leaves the pull request of the record as the one to look at
  next: the loop reads \<^verbatim>\<open>commit.pr\<close> again.\<close>

lemma follow_round_next:
  assumes "follow_round g p c = Next q c2"
  shows "pr c2 = Some q" and "\<not> strict_eq (pr_number p) (pr_number q)"
    and "\<exists>d. g (pr_number p) (pr_owner p) (pr_repo p) = Some d
           \<and> parseCommitMessage (pd_title d @ [LF, LF] @ template (pd_body d))
                (pr_owner p) (pr_repo p) (c\<lparr>note_text := getNoteFromBody (pd_body d)\<rparr>)
              = Inr c2"
  using assms
  by (auto simp: follow_round_def Let_def split: if_splits option.splits sum.splits)

text \<open>The loop of a record, which starts at the pull request of the record, ends when some
  measure goes down in every round that starts at the pull request of its record and goes
  on.\<close>

lemma follow_ends:
  assumes dec: "\<And>p c q c2. pr c = Some p \<Longrightarrow> follow_round g p c = Next q c2
                  \<Longrightarrow> f q < (f p :: nat)"
  shows "\<exists>y. follow g (pr c) c = Some y"
proof (cases "pr c")
  case None
  then show ?thesis by (simp add: follow.simps)
next
  case (Some p)
  then have "\<exists>y. follow g (Some p) c = Some y"
  proof (induction "f p" arbitrary: p c rule: less_induct)
    case less
    show ?case
    proof (cases "follow_round g p c")
      case (Done x)
      then show ?thesis
        by (simp add: follow.simps [of g "Some p"] is_next_def)
    next
      case (Next q c2)
      from less(1) [OF dec [OF less(2) Next] follow_round_next(1) [OF Next]]
      obtain y where "follow g (Some q) c2 = Some y"
        by blast
      with Next show ?thesis
        by (simp add: follow.simps [of g "Some p"] is_next_def next_pull_def next_commit_def)
    qed
  qed
  with Some show ?thesis by simp
qed

lemma scrape_ends:
  assumes "\<And>c. \<exists>y. follow g (pr c) c = Some y"
  shows "\<exists>r. scrape g cs = Some r"
proof (induction cs)
  case Nil
  show ?case by simp
next
  case (Cons c cs)
  from assms [of c] obtain y where "follow g (pr c) c = Some y" by blast
  with Cons show ?case
    by (auto split: sum.splits)
qed

lemma self_message_matches:
  "split_message self_message = (''a'', ''Backport of #1'')"
  "exec re_pr_suffix ''a'' = None"
  "exec re_semantic ''a'' = None"
  "exec re_merge ''a'' = None"
  "map_option (\<lambda>m. grp m 1) (exec re_backport_of self_message) = Some ''1''"
  "exec re_md_fixes self_message = None"
  "exec re_backport_ref self_message = None"
  "exec re_backport_url self_message = None"
  "getNoteFromBody (Some ''Backport of #1'') = None"
  "parseInt ''1'' = 1"
  by code_simp+

lemma rules_issue_pr:
  "exec re_md_fixes m = None \<Longrightarrow> pr (rules_issue m s b c) = pr c"
  by (simp add: rules_issue_def rule_md_fixes_inert rule_revert_def rule_breaking_def
                rule_closes_def default_fix_def split: option.splits)

lemma self_message_pr:
  assumes "parseCommitMessage self_message ownr rp c = Inr c2"
  shows "pr c2 = Some \<lparr>pr_owner = ownr, pr_repo = rp, pr_number = Num 1, pr_branch = None\<rparr>"
  using assms
proof (rule parse_steps)
  fix subj0 b subj1 c1 subj c2' c3 c4 c5 c6
  assume s: "split_message self_message = (subj0, b)"
    "rule_pr_suffix ownr rp (subj0, init_body b (init_subject subj0 c)) = Inr (subj1, c1)"
    "rule_semantic (subj1, c1) = (subj, c2')"
    "rule_merge ownr rp subj c2' = Inr c3"
    "rule_backport_of self_message ownr rp c3 = Inr c4"
    "rule_backport_ref self_message (rules_issue self_message subj b c4) = Inr c5"
    "rule_backport_url self_message c5 = Inr c6"
    "c2 = (rule_legacy self_message c6)\<lparr>subject := Some (trim subj)\<rparr>"
  from s(5) self_message_matches(5,10)
  have "pr c4 = Some \<lparr>pr_owner = ownr, pr_repo = rp, pr_number = Num 1, pr_branch = None\<rparr>"
    by (auto simp: rule_backport_of_def setPullRequest_eq split: option.splits if_splits)
  moreover have "pr c5 = pr c4"
    using s(6) self_message_matches(7) rules_issue_pr [OF self_message_matches(6), of subj b c4]
    by (auto simp: rule_backport_ref_def split: if_splits)
  moreover have "pr c6 = pr c5"
    using s(7) self_message_matches(8) by (auto simp: rule_backport_url_def split: if_splits)
  moreover have "pr (rule_legacy self_message c6) = pr c6"
    by (subst rule_legacy_frame) simp
  ultimately show ?thesis using s(8) by simp
qed

lemma plain_message_matches:
  "split_message plain_message = (''a'', ''b'')"
  "exec re_pr_suffix ''a'' = None"
  "exec re_semantic ''a'' = None"
  "exec re_merge ''a'' = None"
  "exec re_backport_of plain_message = None"
  "exec re_md_fixes plain_message = None"
  "\<not> includes_str (toLowerCase plain_message) ''backport''"
  "exec re_backport_url plain_message = None"
  "getNoteFromBody (Some ''b'') = None"
  by code_simp+

lemma plain_message_pr:
  assumes "parseCommitMessage plain_message ownr rp c = Inr c2"
  shows "pr c2 = pr c"
  using assms
proof (rule parse_steps)
  fix subj0 b subj1 c1 subj c2' c3 c4 c5 c6
  assume s: "split_message plain_message = (subj0, b)"
    "rule_pr_suffix ownr rp (subj0, init_body b (init_subject subj0 c)) = Inr (subj1, c1)"
    "rule_semantic (subj1, c1) = (subj, c2')"
    "rule_merge ownr rp subj c2' = Inr c3"
    "rule_backport_of plain_message ownr rp c3 = Inr c4"
    "rule_backport_ref plain_message (rules_issue plain_message subj b c4) = Inr c5"
    "rule_backport_url plain_message c5 = Inr c6"
    "c2 = (rule_legacy plain_message c6)\<lparr>subject := Some (trim subj)\<rparr>"
  from s(1) have sb: "subj0 = ''a''" "b = ''b''"
    by (simp_all add: plain_message_matches(1))
  from s(2) have 1: "subj1 = ''a''" "pr c1 = pr c"
    by (auto simp: sb rule_pr_suffix_def plain_message_matches(2) init_body_def
                   init_subject_def Let_def)
  from s(3) have 2: "subj = ''a''" "pr c2' = pr c1"
    by (auto simp: 1 rule_semantic_def plain_message_matches(3))
  from s(4) have 3: "pr c3 = pr c2'"
    by (simp add: 2 rule_merge_def plain_message_matches(4))
  from s(5) have 4: "pr c4 = pr c3"
    by (simp add: rule_backport_of_def plain_message_matches(5))
  from s(6) have 5: "pr c5 = pr c4"
    using rules_issue_pr [OF plain_message_matches(6), of subj b c4]
    by (simp add: rule_backport_ref_def plain_message_matches(7))
  from s(7) have 6: "pr c6 = pr c5"
    by (auto simp: rule_backport_url_def plain_message_matches(8) split: if_splits)
  have "pr (rule_legacy plain_message c6) = pr c6"
    by (subst rule_legacy_frame) simp
  with s(8) 1 2 3 4 5 6 show ?thesis by simp
qed

lemma strict_eq_same: "strict_eq n n"
  by (simp add: strict_eq_def split: jsnum.splits)

text \<open>Under the service \<open>chain\<close> a round goes on from the pull request 2 only, and to the
  pull request 1.\<close>

lemma chain_round:
  assumes "pr c = Some p" and "follow_round chain p c = Next q c2"
  shows "to_one q < to_one p"
proof (cases "pr_number p = Num 1 \<or> pr_number p = Num 2")
  case True
  with follow_round_next(3) [OF assms(2)] obtain c1 where
    "parseCommitMessage self_message (pr_owner p) (pr_repo p) c1 = Inr c2"
    by (auto simp: chain_def self_message_def template_def)
  from self_message_pr [OF this] follow_round_next(1) [OF assms(2)]
  have q: "pr_number q = Num 1" by auto
  with follow_round_next(2) [OF assms(2)] have "pr_number p \<noteq> Num 1"
    by (auto simp: strict_eq_same)
  with q show ?thesis by (simp add: to_one_def)
next
  case False
  with follow_round_next(3) [OF assms(2)] obtain n where
    "parseCommitMessage plain_message (pr_owner p) (pr_repo p) (c\<lparr>note_text := n\<rparr>) = Inr c2"
    by (auto simp: chain_def plain_message_def template_def)
  from plain_message_pr [OF this] follow_round_next(1) [OF assms(2)] assms(1)
  have "q = p" by simp
  with follow_round_next(2) [OF assms(2)] show ?thesis
    by (simp add: strict_eq_same)
qed

text \<open>
  Claim C2, as the code has it. The loop of a record starts at the pull request of the
  record, and a round that goes on goes on with the pull request of the record. Under a
  service for which some measure of the pull requests goes down in every such round that
  goes on from one pull request to another, the loop ends for every record, and so does
  the loop over every pool. And these are the exits of the loop: it returns at once when no
  pull request is set, when the record has a note, when the service has no data for the
  pull request, and when the body of the pull request gives a note; and it returns after
  the parse of the title and body when the number of the pull request of the record is
  strictly equal to the number of the pull request just looked at.
\<close>

theorem follow_stops:
  "((\<forall>p c q c2. pr c = Some p \<and> follow_round g p c = Next q c2 \<longrightarrow> f q < (f p :: nat))
      \<longrightarrow> (\<exists>y. follow g (pr c0) c0 = Some y) \<and> (\<exists>r. scrape g cs = Some r))
   \<and> follow g None c = Some (Inr c)
   \<and> (truthy (note_text c) \<longrightarrow> follow g (Some p) c = Some (Inr c))
   \<and> (\<not> truthy (note_text c) \<and> g (pr_number p) (pr_owner p) (pr_repo p) = None
        \<longrightarrow> follow g (Some p) c = Some (Inr c))
   \<and> (\<not> truthy (note_text c) \<and> g (pr_number p) (pr_owner p) (pr_repo p) = Some d
        \<and> truthy (getNoteFromBody (pd_body d))
        \<longrightarrow> follow g (Some p) c = Some (Inr (c\<lparr>note_text := getNoteFromBody (pd_body d)\<rparr>)))
   \<and> (\<not> truthy (note_text c) \<and> g (pr_number p) (pr_owner p) (pr_repo p) = Some d
        \<and> \<not> truthy (getNoteFromBody (pd_body d))
        \<and> parseCommitMessage (pd_title d @ [LF, LF] @ template (pd_body d))
             (pr_owner p) (pr_repo p) (c\<lparr>note_text := getNoteFromBody (pd_body d)\<rparr>) = Inr c2
        \<and> pr c2 = Some q \<and> strict_eq (pr_number p) (pr_number q)
        \<longrightarrow> follow g (Some p) c = Some (Inr c2))"
proof -
  have "(\<exists>y. follow g (pr c0) c0 = Some y) \<and> (\<exists>r. scrape g cs = Some r)"
    if dec: "\<forall>p c q c2. pr c = Some p \<and> follow_round g p c = Next q c2 \<longrightarrow> f q < f p"
  proof -
    have "\<exists>y. follow g (pr c) c = Some y" for c
      using dec by (intro follow_ends [of g f]) blast
    then show ?thesis
      using scrape_ends [of g cs] by blast
  qed
  then show ?thesis
    by (simp add: follow.simps [of g None] follow.simps [of g "Some p"] follow_round_def
                  is_next_def outcome_def Let_def)
qed

text \<open>Under the service \<open>chain\<close> the loop ends for the record \<open>cyc1\<close>, whose pull request 2
  it follows to the pull request 1, and for the pool of \<open>cyc0\<close> and \<open>cyc1\<close>; and the pull
  request 1, which names itself, is looked at once.\<close>

theorem follow_stops_witness:
  "(\<exists>y. follow chain (pr cyc1) cyc1 = Some y)
   \<and> (\<exists>r. scrape chain [cyc0, cyc1] = Some r)
   \<and> follow chain (Some pull_e1) cyc0
     = Some (Inr (cyc0\<lparr>body := Some ''Backport of #1'', subject := Some ''a''\<rparr>))"
proof -
  have m: "\<forall>p c q c2. pr c = Some p \<and> follow_round chain p c = Next q c2
             \<longrightarrow> to_one q < to_one p"
    using chain_round by blast
  have n: "\<not> truthy (note_text cyc0)"
    by code_simp
  have g: "chain (pr_number pull_e1) (pr_owner pull_e1) (pr_repo pull_e1)
           = Some \<lparr>pd_title = ''a'', pd_body = Some ''Backport of #1''\<rparr>"
    by (simp add: chain_def pull_e1_def)
  have b: "\<not> truthy (getNoteFromBody
              (pd_body \<lparr>pd_title = ''a'', pd_body = Some ''Backport of #1''\<rparr>))"
    by code_simp
  have p: "parseCommitMessage
             (pd_title \<lparr>pd_title = ''a'', pd_body = Some ''Backport of #1''\<rparr> @ [LF, LF] @
              template (pd_body \<lparr>pd_title = ''a'', pd_body = Some ''Backport of #1''\<rparr>))
             (pr_owner pull_e1) (pr_repo pull_e1)
             (cyc0\<lparr>note_text := getNoteFromBody
                (pd_body \<lparr>pd_title = ''a'', pd_body = Some ''Backport of #1''\<rparr>)\<rparr>)
           = Inr (cyc0\<lparr>body := Some ''Backport of #1'', subject := Some ''a''\<rparr>)"
    by code_simp
  have q: "pr (cyc0\<lparr>body := Some ''Backport of #1'', subject := Some ''a''\<rparr>) = Some pull_e1"
    "strict_eq (pr_number pull_e1) (pr_number pull_e1)"
    by code_simp+
  note t = follow_stops [of chain to_one cyc1 "[cyc0, cyc1]" cyc0 pull_e1
      "\<lparr>pd_title = ''a'', pd_body = Some ''Backport of #1''\<rparr>"
      "cyc0\<lparr>body := Some ''Backport of #1'', subject := Some ''a''\<rparr>" pull_e1]
  from t m have "(\<exists>y. follow chain (pr cyc1) cyc1 = Some y)
                 \<and> (\<exists>r. scrape chain [cyc0, cyc1] = Some r)"
    by blast
  moreover from t n g b p q
  have "follow chain (Some pull_e1) cyc0
        = Some (Inr (cyc0\<lparr>body := Some ''Backport of #1'', subject := Some ''a''\<rparr>))"
    by blast
  ultimately show ?thesis by simp
qed

text \<open>
  Claim C2 as stated fails: the loop does not end for every service. The test compares
  the number of a pull request with that of the round before only, and with two pull
  requests that name each other the number changes in every round.
\<close>

theorem follow_cycle_never_ends:
  "parseCommitMessage ''x (#1)'' ''electron'' ''electron'' empty_commit = Inr cyc0
   \<and> follow cyc (pr cyc0) cyc0 = None"
proof -
  have "parseCommitMessage ''x (#1)'' ''electron'' ''electron'' empty_commit = Inr cyc0"
    by code_simp
  moreover have "pr cyc0 = Some pull_e1"
    by (simp add: cyc0_def)
  moreover have "follow cyc (Some pull_e1) cyc0 = None"
    using cyc_never [of cyc "Some pull_e1" cyc0] by (cases "follow cyc (Some pull_e1) cyc0") auto
  ultimately show ?thesis by simp
qed

subsection \<open>Dependency commits\<close>

lemma getDependencyCommits_commits:
  "commits (getDependencyCommits p ws) = commits p @ concat (map new_commits ws)"
  unfolding getDependencyCommits_def
  by (induction ws arbitrary: p) (simp_all add: addRepoToPool_def)

lemma getDependencyCommits_hashes:
  "processedHashes (getDependencyCommits p ws)
   = processedHashes p \<union> Some ` set (concat (map old_hashes ws))"
  unfolding getDependencyCommits_def
  by (induction ws arbitrary: p) (auto simp: addRepoToPool_def)

text \<open>
  Claim C8. With \<^verbatim>\<open>semver.valid\<close> and \<^verbatim>\<open>semver.major\<close> as parameters (a reference is a valid
  semantic version when \<^verbatim>\<open>semver.valid\<close> returns its version, a truthy string): the pool
  that \<open>getNotes\<close> gathers holds the commits of electron/electron, followed by the commits
  of the dependency repositories exactly when both references are valid and have the same
  major version; otherwise it holds no commit and no old hash of a dependency.
\<close>

theorem deps_iff_same_major:
  "commits (gather valid major electron deps fromRef toRef)
   = new_commits electron @
       (if truthy (valid fromRef) \<and> truthy (valid toRef) \<and> major fromRef = major toRef
        then concat (map new_commits deps) else [])
   \<and> processedHashes (gather valid major electron deps fromRef toRef)
   = Some ` set (old_hashes electron) \<union>
       (if truthy (valid fromRef) \<and> truthy (valid toRef) \<and> major fromRef = major toRef
        then Some ` set (concat (map old_hashes deps)) else {})"
  by (simp add: gather_def includeDeps_def getDependencyCommits_commits
                getDependencyCommits_hashes addRepoToPool_def Let_def)

subsection \<open>A commit and its reversion\<close>

lemma setPullRequest_hash: "setPullRequest c ownr rp n = Inr c' \<Longrightarrow> hash c' = hash c"
  by (auto simp: setPullRequest_def Let_def split: if_splits)

lemma parse_hash:
  assumes "parseCommitMessage m ownr rp c = Inr c'"
  shows "hash c' = hash c"
  using assms
proof (rule parse_steps)
  fix subj0 b subj1 c1 subj c2 c3 c4 c5 c6
  assume s: "rule_pr_suffix ownr rp (subj0, init_body b (init_subject subj0 c)) = Inr (subj1, c1)"
    "rule_semantic (subj1, c1) = (subj, c2)"
    "rule_merge ownr rp subj c2 = Inr c3"
    "rule_backport_of m ownr rp c3 = Inr c4"
    "rule_backport_ref m (rules_issue m subj b c4) = Inr c5"
    "rule_backport_url m c5 = Inr c6"
    "c' = (rule_legacy m c6)\<lparr>subject := Some (trim subj)\<rparr>"
  have "hash c1 = hash c"
    using s(1)
    by (auto simp: rule_pr_suffix_def bind_def init_body_def init_subject_def Let_def
             split: option.splits sum.splits if_splits dest: setPullRequest_hash)
  moreover have "hash c2 = hash c1"
    using s(2) by (auto simp: rule_semantic_def split: option.splits)
  moreover have "hash c3 = hash c2"
    using s(3)
    by (auto simp: rule_merge_def bind_def set_branch_def Let_def
             split: option.splits sum.splits dest: setPullRequest_hash)
  moreover have "hash c4 = hash c3"
    using s(4) by (auto simp: rule_backport_of_def split: option.splits dest: setPullRequest_hash)
  moreover have "hash (rules_issue m subj b c4) = hash c4"
    by (auto simp: rules_issue_def rule_revert_def rule_breaking_def rule_md_fixes_def
                   rule_closes_def default_fix_def Let_def split: option.splits)
  moreover have "hash c5 = hash (rules_issue m subj b c4)"
    using s(5)
    by (auto simp: rule_backport_ref_def split: option.splits if_splits
             dest: setPullRequest_hash)
  moreover have "hash c6 = hash c5"
    using s(6)
    by (auto simp: rule_backport_url_def split: option.splits if_splits
             dest: setPullRequest_hash)
  moreover have "hash (rule_legacy m c6) = hash c6"
    by (subst rule_legacy_frame) simp
  ultimately show ?thesis using s(7) by simp
qed

lemma follow_round_frame:
  "follow_round g p c = Next q c2 \<Longrightarrow> hash c2 = hash c \<and> \<not> truthy (note_text c)"
  "follow_round g p c = Done (Inr c') \<Longrightarrow>
     hash c' = hash c \<and> (truthy (note_text c) \<longrightarrow> c' = c)"
  by (auto simp: follow_round_def Let_def split: if_splits option.splits sum.splits
           dest: parse_hash)

lemma follow_frame:
  assumes "follow g p c = Some y"
  shows "\<forall>c'. y = Inr c' \<longrightarrow> hash c' = hash c \<and> (truthy (note_text c) \<longrightarrow> c' = c)"
proof (rule follow.raw_induct
    [where P = "\<lambda>g p c y. \<forall>c'. y = Inr c' \<longrightarrow>
                  hash c' = hash c \<and> (truthy (note_text c) \<longrightarrow> c' = c)", OF _ assms])
  fix follow' :: "service \<Rightarrow> pull option \<Rightarrow> commit \<Rightarrow> (error + commit) option"
    and g p c y
  assume IH: "\<And>g p c y. follow' g p c = Some y \<Longrightarrow>
      \<forall>c'. y = Inr c' \<longrightarrow> hash c' = hash c \<and> (truthy (note_text c) \<longrightarrow> c' = c)"
    and body: "(if p = None then Some (Inr c)
      else if is_next (follow_round g (the p) c)
           then follow' g (next_pull (follow_round g (the p) c))
                  (next_commit (follow_round g (the p) c) c)
           else Some (outcome (follow_round g (the p) c) c)) = Some y"
  show "\<forall>c'. y = Inr c' \<longrightarrow> hash c' = hash c \<and> (truthy (note_text c) \<longrightarrow> c' = c)"
  proof (cases "p = None")
    case True
    with body show ?thesis by auto
  next
    case False
    show ?thesis
    proof (cases "follow_round g (the p) c")
      case (Done x)
      with body False follow_round_frame(2) [of g "the p" c] show ?thesis
        by (auto simp: is_next_def outcome_def)
    next
      case (Next q c2)
      with body False have "follow' g (Some q) c2 = Some y"
        by (simp add: is_next_def next_pull_def next_commit_def)
      from IH [OF this] follow_round_frame(1) [OF Next] show ?thesis
        by auto
    qed
  qed
qed

lemma scrape_frame:
  "scrape g cs = Some (Inr cs') \<Longrightarrow>
     length cs' = length cs
     \<and> (\<forall>k < length cs. hash (cs' ! k) = hash (cs ! k)
           \<and> (truthy (note_text (cs ! k)) \<longrightarrow> cs' ! k = cs ! k))"
proof (induction cs arbitrary: cs')
  case Nil
  then show ?case by simp
next
  case (Cons c cs)
  from Cons.prems obtain c' cs2 where
    1: "follow g (pr c) c = Some (Inr c')" and 2: "scrape g cs = Some (Inr cs2)"
    and 3: "cs' = c' # cs2"
    by (auto split: option.splits sum.splits)
  from follow_frame [OF 1] Cons.IH [OF 2] 3 show ?case
    by (auto simp: nth_Cons split: nat.splits)
qed

lemma drop_bumps_subset: "drop_bumps cs = Inr cs' \<Longrightarrow> set cs' \<subseteq> set cs"
proof (induction cs arbitrary: cs')
  case Nil
  then show ?case by simp
next
  case (Cons c cs)
  then show ?case
    by (auto simp: bind_def split: sum.splits if_splits)
qed

lemma classify_subset:
  "set (breaks (classify cs r)) \<union> set (docs (classify cs r)) \<union> set (feat (classify cs r))
   \<union> set (fix_bucket (classify cs r)) \<union> set (other (classify cs r))
   \<union> set (unknown (classify cs r)) \<subseteq> set cs"
  by (auto simp: classify_def)

lemma set_note_nth:
  "k < length cs \<Longrightarrow>
     set_note i n cs ! k = (if k = i then (cs ! k)\<lparr>note_text := Some n\<rparr> else cs ! k)"
  by (simp add: set_note_def)

lemma set_note_length [simp]: "length (set_note i n cs) = length cs"
  by (simp add: set_note_def)

lemma cancel_step_frame:
  "length (commits (cancel_step p i)) = length (commits p)"
  "k < length (commits p) \<Longrightarrow> hash (commits (cancel_step p i) ! k) = hash (commits p ! k)"
  "k < length (commits p) \<Longrightarrow>
     revertHash (commits (cancel_step p i) ! k) = revertHash (commits p ! k)"
  "k < length (commits p) \<Longrightarrow> note_text (commits p ! k) = Some NO_NOTES \<Longrightarrow>
     note_text (commits (cancel_step p i) ! k) = Some NO_NOTES"
  "processedHashes p \<subseteq> processedHashes (cancel_step p i)"
  by (auto simp: cancel_step_def set_note_nth split: option.splits)

lemma cancel_steps_frame:
  "length (commits (foldl cancel_step p ks)) = length (commits p)
   \<and> (\<forall>k < length (commits p).
         hash (commits (foldl cancel_step p ks) ! k) = hash (commits p ! k)
         \<and> revertHash (commits (foldl cancel_step p ks) ! k) = revertHash (commits p ! k)
         \<and> (note_text (commits p ! k) = Some NO_NOTES \<longrightarrow>
              note_text (commits (foldl cancel_step p ks) ! k) = Some NO_NOTES))
   \<and> processedHashes p \<subseteq> processedHashes (foldl cancel_step p ks)"
proof (induction ks arbitrary: p)
  case Nil
  then show ?case by simp
next
  case (Cons a ks)
  from Cons.IH [of "cancel_step p a"] cancel_step_frame [where p = p and i = a]
  show ?case by (auto simp: subset_iff)
qed

lemma find_index_Some:
  "find_index P xs = Some i \<Longrightarrow> i < length xs \<and> P (xs ! i)"
  by (induction xs arbitrary: i) (auto split: if_splits)

lemma find_index_None: "find_index P xs = None \<Longrightarrow> \<forall>x \<in> set xs. \<not> P x"
  by (induction xs) (auto split: if_splits)

lemma cancel_step_marks:
  assumes "i < length (commits p)" "j < length (commits p)"
    and "hash (commits p ! i) = Some h" "revertHash (commits p ! j) = Some h" "h \<noteq> []"
    and "distinct (map hash (commits p))"
  shows "note_text (commits (cancel_step p j) ! i) = Some NO_NOTES"
    and "note_text (commits (cancel_step p j) ! j) = Some NO_NOTES"
    and "{Some h, hash (commits p ! j)} \<subseteq> processedHashes (cancel_step p j)"
proof -
  have "\<not> (\<forall>x \<in> set (commits p). hash x \<noteq> Some h)"
    using assms(1,3) nth_mem by force
  then have "find_index (\<lambda>c. hash c = Some h) (commits p) \<noteq> None"
    using find_index_None by blast
  then obtain i' where f: "find_index (\<lambda>c. hash c = Some h) (commits p) = Some i'"
    by auto
  from find_index_Some [OF f] assms(1,3,6) have "i' = i"
    by (metis distinct_conv_nth length_map nth_map)
  with f assms show "note_text (commits (cancel_step p j) ! i) = Some NO_NOTES"
    "note_text (commits (cancel_step p j) ! j) = Some NO_NOTES"
    "{Some h, hash (commits p ! j)} \<subseteq> processedHashes (cancel_step p j)"
    by (auto simp: cancel_step_def set_note_nth)
qed

lemma cancel_reverts_marks:
  assumes "i < length (commits p)" "j < length (commits p)"
    and "hash (commits p ! i) = Some h" "revertHash (commits p ! j) = Some h" "h \<noteq> []"
    and "distinct (map hash (commits p))"
  shows "length (commits (cancel_reverts p)) = length (commits p)"
    and "map hash (commits (cancel_reverts p)) = map hash (commits p)"
    and "note_text (commits (cancel_reverts p) ! i) = Some NO_NOTES"
    and "note_text (commits (cancel_reverts p) ! j) = Some NO_NOTES"
    and "{Some h, hash (commits p ! j)} \<subseteq> processedHashes (cancel_reverts p)"
proof -
  define n where "n = length (commits p)"
  define p1 where "p1 = foldl cancel_step p [0..<j]"
  define p2 where "p2 = cancel_step p1 j"
  define p3 where "p3 = foldl cancel_step p2 [Suc j..<n]"
  have "[0..<n] = [0..<j] @ j # [Suc j..<n]"
    using assms(2) unfolding n_def
    by (metis le_add_diff_inverse less_imp_le_nat upt_add_eq_append upt_conv_Cons zero_le)
  then have p3: "cancel_reverts p = p3"
    by (simp add: cancel_reverts_def p3_def p2_def p1_def n_def)
  note f1 = cancel_steps_frame [of p "[0..<j]", folded p1_def]
  have len1: "length (commits p1) = length (commits p)" using f1 by simp
  have h1: "map hash (commits p1) = map hash (commits p)"
    using f1 by (auto intro: nth_equalityI)
  have a1: "i < length (commits p1)" "j < length (commits p1)"
    "hash (commits p1 ! i) = Some h" "revertHash (commits p1 ! j) = Some h"
    "distinct (map hash (commits p1))"
    using assms f1 h1 by simp_all
  note m2 = cancel_step_marks [OF a1(1,2,3,4) assms(5) a1(5), folded p2_def]
  have len2: "length (commits p2) = length (commits p1)"
    unfolding p2_def by (rule cancel_step_frame(1))
  note f3 = cancel_steps_frame [of p2 "[Suc j..<n]", folded p3_def]
  have hj: "hash (commits p1 ! j) = hash (commits p ! j)"
    using f1 assms(2) by simp
  show "length (commits (cancel_reverts p)) = length (commits p)"
    using f3 len2 len1 p3 by simp
  have "\<forall>k < length (commits p). hash (commits p3 ! k) = hash (commits p ! k)"
    using f3 f1 len1 len2 cancel_step_frame(2) [of _ p1 j, folded p2_def] by simp
  then show "map hash (commits (cancel_reverts p)) = map hash (commits p)"
    using f3 len2 len1 p3 by (auto intro: nth_equalityI)
  show "note_text (commits (cancel_reverts p) ! i) = Some NO_NOTES"
    using f3 m2(1) a1(1) len2 p3 by simp
  show "note_text (commits (cancel_reverts p) ! j) = Some NO_NOTES"
    using f3 m2(2) a1(2) len2 p3 by simp
  show "{Some h, hash (commits p ! j)} \<subseteq> processedHashes (cancel_reverts p)"
    using f3 m2(3) hj p3 by auto
qed

text \<open>
  Claim C4. Let the pool hold, at the index \<open>i\<close>, a commit with the hash \<open>h\<close> and, at the
  index \<open>j\<close>, a commit whose \<^verbatim>\<open>revertHash\<close> is \<open>h\<close> (a hash identifies one commit: the
  hashes of the pool are distinct). After the loop that cancels reversions both commits
  have the note \<^verbatim>\<open>No notes\<close>, both hashes are in \<^verbatim>\<open>processedHashes\<close>, and the pool still
  holds the same commits at the same places: none is removed. And whenever the rest of
  \<open>getNotes\<close> returns its buckets, no bucket holds a commit with one of the two hashes.
\<close>

theorem revert_pair_cancelled:
  assumes "i < length (commits p)" "j < length (commits p)"
    and "hash (commits p ! i) = Some h" "revertHash (commits p ! j) = Some h" "h \<noteq> []"
    and "distinct (map hash (commits p))"
  shows "note_text (commits (cancel_reverts p) ! i) = Some NO_NOTES
       \<and> note_text (commits (cancel_reverts p) ! j) = Some NO_NOTES
       \<and> {Some h, hash (commits p ! j)} \<subseteq> processedHashes (cancel_reverts p)
       \<and> length (commits (cancel_reverts p)) = length (commits p)
       \<and> map hash (commits (cancel_reverts p)) = map hash (commits p)
       \<and> (\<forall>n. finish g p toRef = Some (Inr n) \<longrightarrow>
            (\<forall>c \<in> set (breaks n) \<union> set (docs n) \<union> set (feat n) \<union> set (fix_bucket n)
                    \<union> set (other n) \<union> set (unknown n).
               hash c \<noteq> Some h \<and> hash c \<noteq> hash (commits p ! j)))"
proof -
  note m = cancel_reverts_marks [OF assms]
  have "hash c \<noteq> Some h \<and> hash c \<noteq> hash (commits p ! j)"
    if fin: "finish g p toRef = Some (Inr n)"
      and c: "c \<in> set (breaks n) \<union> set (docs n) \<union> set (feat n) \<union> set (fix_bucket n)
                \<union> set (other n) \<union> set (unknown n)"
    for n c
  proof -
    from fin obtain cs cs' where
      1: "scrape g (commits (cancel_reverts p)) = Some (Inr cs)"
      and 2: "remove_uninteresting cs = Inr cs'" and 3: "n = classify cs' toRef"
      by (auto simp: finish_def split: option.splits sum.splits)
    from c 3 classify_subset [of cs' toRef] have "c \<in> set cs'" by auto
    with 2 drop_bumps_subset have "c \<in> set cs" and nn: "note_text c \<noteq> Some NO_NOTES"
      unfolding remove_uninteresting_def by fastforce+
    then obtain k where k: "k < length cs" "c = cs ! k"
      by (auto simp: in_set_conv_nth)
    note f = scrape_frame [OF 1]
    from f k m(1) have kp: "k < length (commits p)" by simp
    have hk: "hash c = hash (commits p ! k)"
      using f k kp m(1,2) by (metis nth_map)
    have t: "truthy (Some NO_NOTES)" by (simp add: truthy_def NO_NOTES_def)
    have "k \<noteq> i"
    proof
      assume "k = i"
      with f k m(1,3) assms(1) t have "c = commits (cancel_reverts p) ! i" by auto
      with m(3) nn show False by simp
    qed
    moreover have "k \<noteq> j"
    proof
      assume "k = j"
      with f k m(1,4) assms(2) t have "c = commits (cancel_reverts p) ! j" by auto
      with m(4) nn show False by simp
    qed
    ultimately show ?thesis
      using hk assms(1,2,3,6) kp
      by (metis distinct_conv_nth length_map nth_map)
  qed
  with m show ?thesis by blast
qed

lemma revert_pool_facts:
  "(0::nat) < length (commits revert_pool)" "(1::nat) < length (commits revert_pool)"
  "hash (commits revert_pool ! 0) = Some ''aa''"
  "revertHash (commits revert_pool ! 1) = Some ''aa''"
  "''aa'' \<noteq> []"
  "distinct (map hash (commits revert_pool))"
  by (simp_all add: revert_pool_def commit_a_def commit_b_def commit_c_def empty_commit_def)

lemma follow_None: "follow g None c = Some (Inr c)"
  by (simp add: follow.simps)

lemma revert_pool_cancelled: "commits (cancel_reverts revert_pool) = [marked_a, marked_b, commit_c]"
  by code_simp

lemma revert_pool_scraped: "scrape no_service [marked_a, marked_b, commit_c] = Some (Inr [marked_a, marked_b, commit_c])"
  by (simp add: follow_None marked_a_def marked_b_def commit_a_def commit_b_def commit_c_def empty_commit_def)

lemma revert_pool_filtered: "remove_uninteresting [marked_a, marked_b, commit_c] = Inr [commit_c]"
  by code_simp

lemma revert_pool_classified: "classify [commit_c] ''v1'' = \<lparr>breaks = [], docs = [], feat = [], fix_bucket = [commit_c], other = [],
                  unknown = [], ref = ''v1''\<rparr>"
  by code_simp

lemma revert_pool_finished: "finish no_service revert_pool ''v1''
     = Some (Inr \<lparr>breaks = [], docs = [], feat = [], fix_bucket = [commit_c], other = [],
                  unknown = [], ref = ''v1''\<rparr>)"
  unfolding finish_def revert_pool_cancelled revert_pool_scraped by (simp add: revert_pool_filtered revert_pool_classified)

text \<open>The pool of three commits: the feature and its reversion are marked and leave; the
  fix is the only commit of the buckets.\<close>

theorem revert_pair_cancelled_witness:
  "note_text (commits (cancel_reverts revert_pool) ! 0) = Some NO_NOTES
   \<and> note_text (commits (cancel_reverts revert_pool) ! 1) = Some NO_NOTES
   \<and> {Some ''aa'', Some ''bb''} \<subseteq> processedHashes (cancel_reverts revert_pool)
   \<and> length (commits (cancel_reverts revert_pool)) = 3
   \<and> finish no_service revert_pool ''v1''
     = Some (Inr \<lparr>breaks = [], docs = [], feat = [], fix_bucket = [commit_c], other = [],
                  unknown = [], ref = ''v1''\<rparr>)"
proof -
  have b: "hash (commits revert_pool ! 1) = Some ''bb''"
    "length (commits revert_pool) = 3"
    by (simp_all add: revert_pool_def commit_b_def empty_commit_def)
  from revert_pair_cancelled [OF revert_pool_facts, of no_service "''v1''"] b
    revert_pool_finished
  show ?thesis by simp
qed

subsection \<open>Sections of the rendered notes\<close>

lemma links_of_snoc:
  "links_of k (rs @ [(n, l)]) = links_of k rs @ (if k = n then [l] else [])"
  by (simp add: links_of_def)

lemma links_of_none: "k \<notin> fst ` set rs \<Longrightarrow> links_of k rs = []"
  by (auto simp: links_of_def filter_empty_conv)

lemma grouped_add_link:
  assumes "grouped m rs"
  shows "grouped (add_link m r) (rs @ [r])"
proof -
  obtain n l where r: "r = (n, l)" by (cases r)
  from assms have d: "distinct (map fst m)" and k: "fst ` set m = fst ` set rs"
    and v: "\<And>e. e \<in> set m \<Longrightarrow> snd e = links_of (fst e) rs"
    by (auto simp: grouped_def list_all_iff)
  show ?thesis
  proof (cases "n \<in> fst ` set m")
    case True
    define upd where "upd = (\<lambda>(k, ls). if k = n then (k, ls @ [l]) else (k :: string, ls :: string list))"
    have m': "add_link m (n, l) = map upd m"
      using True by (simp add: add_link_def upd_def)
    have f: "fst (upd e) = fst e" for e
      by (cases e) (simp add: upd_def)
    then have fo: "fst \<circ> upd = fst"
      by (intro ext) simp
    have "snd (upd e) = links_of (fst (upd e)) (rs @ [(n, l)])" if "e \<in> set m" for e
      using v [OF that] by (cases e) (simp add: upd_def links_of_snoc)
    then have "list_all (\<lambda>e. snd e = links_of (fst e) (rs @ [(n, l)])) (map upd m)"
      by (simp add: list_all_iff)
    moreover have "fst ` set (map upd m) = fst ` set (rs @ [(n, l)])"
    proof -
      have "fst ` set (map upd m) = fst ` set m"
        by (simp add: image_image f)
      also have "\<dots> = insert n (fst ` set rs)"
        using True k by auto
      finally show ?thesis by simp
    qed
    moreover have "distinct (map fst (map upd m))"
      using d by (simp add: fo)
    ultimately show ?thesis
      unfolding grouped_def r m' by blast
  next
    case False
    then have m': "add_link m (n, l) = m @ [(n, [l])]"
      by (simp add: add_link_def)
    have "snd e = links_of (fst e) (rs @ [(n, l)])" if "e \<in> set m" for e
    proof -
      from that False have "fst e \<noteq> n" by auto
      with v [OF that] show ?thesis by (simp add: links_of_snoc)
    qed
    moreover have "links_of n (rs @ [(n, l)]) = [l]"
      using False k by (simp add: links_of_snoc links_of_none)
    ultimately show ?thesis
      using d k False unfolding grouped_def r m' by (auto simp: list_all_iff)
  qed
qed

lemma grouped_foldl: "grouped (foldl add_link [] rs) rs"
proof (induction rs rule: rev_induct)
  case Nil
  show ?case by (simp add: grouped_def)
next
  case (snoc r rs)
  then show ?case by (simp add: grouped_add_link)
qed

text \<open>
  Claim C9. \<open>renderNotes\<close> renders each section other than the documentation with
  \<open>renderSection\<close>. When \<open>renderSection\<close> returns for commits that are not none, it has
  pushed the title, the bullet lines and an empty line, where the bullet lines are in
  lexicographic order, there is exactly one bullet line for each rendered note text (as
  many lines as distinct texts), and the line of a text holds the links of all commits
  with that text, sorted and joined by commas.
\<close>

theorem section_bullets:
  assumes "renderSection title cs = Inr out" and "cs \<noteq> []"
  shows "\<exists>rs lines.
           map_throwing renderCommit cs = Inr rs
           \<and> out = [''## '' @ title @ [LF, LF]] @ lines @ [[LF]]
           \<and> sorted lines
           \<and> length lines = card (fst ` set rs)
           \<and> set lines = (\<lambda>n. '' * '' @ n @ '' '' @ join '', '' (sort (links_of n rs)) @ [LF])
                            ` fst ` set rs"
proof -
  from assms obtain rs where rs: "map_throwing renderCommit cs = Inr rs"
    and out: "out = [''## '' @ title @ [LF, LF]] @ sort (map bullet (foldl add_link [] rs)) @ [[LF]]"
    by (auto simp: renderSection_def bind_def split: sum.splits)
  define g where "g = foldl add_link [] rs"
  have g: "distinct (map fst g)" "fst ` set g = fst ` set rs"
    "\<forall>e \<in> set g. snd e = links_of (fst e) rs"
    using grouped_foldl [of rs] by (simp_all add: grouped_def g_def list_all_iff)
  have "length (sort (map bullet g)) = card (fst ` set rs)"
    using g(1,2) distinct_card [of "map fst g"] by simp
  moreover have "set (sort (map bullet g))
      = (\<lambda>n. '' * '' @ n @ '' '' @ join '', '' (sort (links_of n rs)) @ [LF]) ` fst ` set rs"
  proof -
    have "bullet e = '' * '' @ fst e @ '' '' @ join '', '' (sort (links_of (fst e) rs)) @ [LF]"
      if "e \<in> set g" for e
    proof -
      from that g(3) have "snd e = links_of (fst e) rs" by blast
      then show ?thesis by (cases e) (simp add: bullet_def)
    qed
    then have "bullet ` set g
        = (\<lambda>e. '' * '' @ fst e @ '' '' @ join '', '' (sort (links_of (fst e) rs)) @ [LF]) ` set g"
      by (intro image_cong) auto
    also have "\<dots> = (\<lambda>n. '' * '' @ n @ '' '' @ join '', '' (sort (links_of n rs)) @ [LF])
                        ` fst ` set g"
      by (simp add: image_image)
    finally show ?thesis using g(2) by simp
  qed
  ultimately show ?thesis
    using rs out unfolding g_def by (intro exI [of _ rs] exI [of _ "sort (map bullet (foldl add_link [] rs))"]) simp
qed

text \<open>The sections of \<open>renderNotes\<close> other than the documentation are those of
  \<open>renderSection\<close>, in this order.\<close>

lemma renderNotes_sections:
  assumes "renderNotes n = Inr doc"
  shows "\<exists>s1 s2 s3 s4 s5.
           renderSection ''Breaking Changes'' (breaks n) = Inr s1
           \<and> renderSection ''Features'' (feat n) = Inr s2
           \<and> renderSection ''Fixes'' (fix_bucket n) = Inr s3
           \<and> renderSection ''Other Changes'' (other n) = Inr s4
           \<and> renderSection ''Unknown'' (unknown n) = Inr s5
           \<and> doc = concat ([''# Release Notes for '' @ ref n @ [LF, LF]] @ s1 @ s2 @ s3 @ s4 @
                            renderDocs (docs n) @ s5)"
  using assms by (auto simp: renderNotes_def bind_def split: sum.splits)

lemma render_example: "renderSection ''Fixes'' [render_a, render_b, render_c] = Inr render_out"
  by code_simp

theorem section_bullets_witness:
  "renderSection ''Fixes'' [render_a, render_b, render_c] = Inr render_out
   \<and> (\<exists>rs lines.
         map_throwing renderCommit [render_a, render_b, render_c] = Inr rs
         \<and> render_out = [''## '' @ ''Fixes'' @ [LF, LF]] @ lines @ [[LF]]
         \<and> sorted lines
         \<and> length lines = card (fst ` set rs)
         \<and> set lines = (\<lambda>n. '' * '' @ n @ '' '' @ join '', '' (sort (links_of n rs)) @ [LF])
                          ` fst ` set rs)"
proof -
  have "[render_a, render_b, render_c] \<noteq> []"
    by simp
  from section_bullets [OF render_example this] render_example show ?thesis
    by simp
qed

end
